theory Spec2Isabelle
  imports Main "HOL-Library.Word"
begin

section \<open>Bytes, buffers and the platform's DataView\<close>

text \<open>
  The archive and the module's linear memory are \<^verbatim>\<open>ArrayBuffer\<close>s: lists of
  bytes. JavaScript numbers that hold sizes, positions and decoded fields are
  natural numbers; numbers that may be negative (the argument of \<^verbatim>\<open>seek\<close>, the
  i32 arguments of the host calls, the count a callback returns) are integers.
\<close>

type_synonym byte = "8 word"

text \<open>
  Every \<^verbatim>\<open>throw\<close> of the source is a constructor. \<open>RangeError\<close> is the exception
  the platform raises itself when a \<^verbatim>\<open>DataView\<close> accessor or a typed-array
  constructor is given a range outside its buffer.
\<close>

datatype error =
    SeekNegative int          \<comment> \<open>\<^verbatim>\<open>Error(`${pos} < 0`)\<close>\<close>
  | SeekBeyond int            \<comment> \<open>\<^verbatim>\<open>Error(`${pos} > this.len`)\<close>\<close>
  | ReadBeyond nat nat nat    \<comment> \<open>\<^verbatim>\<open>Error(`${pos} + ${size} > ${len}`)\<close>\<close>
  | NotImplemented            \<comment> \<open>\<^verbatim>\<open>Error(`Not implemented`)\<close>\<close>
  | SignatureMismatch         \<comment> \<open>\<^verbatim>\<open>Error(`Central directory signature mismatch`)\<close>\<close>
  | NotSupported nat          \<comment> \<open>\<^verbatim>\<open>Error(`Not supported: ${compressionMethod}`)\<close>\<close>
  | MemoryNotSet              \<comment> \<open>\<^verbatim>\<open>Error("Memory not set.")\<close>\<close>
  | NotSet string             \<comment> \<open>\<^verbatim>\<open>Error("Not set: stdin")\<close> and its siblings\<close>
  | RangeError                \<comment> \<open>raised by the platform, never by the source\<close>

text \<open>Little-endian value of a byte sequence, and the bytes of a value.\<close>

fun le_nat :: "byte list \<Rightarrow> nat" where
  "le_nat [] = 0"
| "le_nat (b # bs) = unat b + 256 * le_nat bs"

fun le_bytes :: "nat \<Rightarrow> nat \<Rightarrow> byte list" where
  "le_bytes 0 v = []"
| "le_bytes (Suc k) v = word_of_nat (v mod 256) # le_bytes k (v div 256)"

text \<open>The \<open>n\<close> bytes of a buffer that start at offset \<open>p\<close>.\<close>

definition bytes_at :: "byte list \<Rightarrow> nat \<Rightarrow> nat \<Rightarrow> byte list" where
  "bytes_at buf p n = take n (drop p buf)"

text \<open>
  \<^verbatim>\<open>DataView.getUint16(p, true)\<close> and \<^verbatim>\<open>getUint32(p, true)\<close>: a \<open>RangeError\<close> when
  the offset is negative or the field does not fit in the buffer.
\<close>

definition getUint :: "nat \<Rightarrow> byte list \<Rightarrow> int \<Rightarrow> error + nat" where
  "getUint w buf p =
     (if p < 0 \<or> p + int w > int (length buf) then Inl RangeError
      else Inr (le_nat (bytes_at buf (nat p) w)))"

definition getUint16 :: "byte list \<Rightarrow> int \<Rightarrow> error + nat" where
  "getUint16 = getUint 2"

definition getUint32 :: "byte list \<Rightarrow> int \<Rightarrow> error + nat" where
  "getUint32 = getUint 4"

text \<open>
  \<^verbatim>\<open>new Uint8Array(buffer, p, n)\<close>: the view of \<open>n\<close> bytes at \<open>p\<close>, a \<open>RangeError\<close>
  when it does not fit.
\<close>

definition Uint8Array_view :: "byte list \<Rightarrow> int \<Rightarrow> nat \<Rightarrow> error + byte list" where
  "Uint8Array_view buf p n =
     (if p < 0 \<or> p + int n > int (length buf) then Inl RangeError
      else Inr (bytes_at buf (nat p) n))"

section \<open>Reader: the cursor of \<^verbatim>\<open>zip.ts\<close>\<close>

record Reader =
  view :: "byte list"
  pos :: nat

text \<open>
  A method of the cursor takes the cursor and returns its result, or the error
  it threw, together with the cursor as the call left it (the cursor object
  outlives a throw: the closures of the catalog share it).
\<close>

type_synonym 'a reading = "Reader \<Rightarrow> (error + 'a) \<times> Reader"

definition returnR :: "'a \<Rightarrow> 'a reading" where
  "returnR x r = (Inr x, r)"

definition throwR :: "error \<Rightarrow> 'a reading" where
  "throwR e r = (Inl e, r)"

definition bindR :: "'a reading \<Rightarrow> ('a \<Rightarrow> 'b reading) \<Rightarrow> 'b reading" where
  "bindR m f r = (case m r of (Inl e, r') \<Rightarrow> (Inl e, r') | (Inr x, r') \<Rightarrow> f x r')"

definition len :: "Reader \<Rightarrow> nat" where
  "len r = length (view r)"

definition seek :: "int \<Rightarrow> unit reading" where
  "seek p r =
     (let p = (if p < 0 then int (len r) + p else p) in
      if p < 0 then (Inl (SeekNegative p), r)
      else if p > int (len r) then (Inl (SeekBeyond p), r)
      else (Inr (), r\<lparr>pos := nat p\<rparr>))"

definition readU4 :: "nat reading" where
  "readU4 r =
     (if pos r + 4 > len r then (Inl (ReadBeyond (pos r) 4 (len r)), r)
      else case getUint32 (view r) (int (pos r)) of
             Inl e \<Rightarrow> (Inl e, r)
           | Inr val \<Rightarrow> (Inr val, r\<lparr>pos := pos r + 4\<rparr>))"

definition readU2 :: "nat reading" where
  "readU2 r =
     (if pos r + 2 > len r then (Inl (ReadBeyond (pos r) 2 (len r)), r)
      else case getUint16 (view r) (int (pos r)) of
             Inl e \<Rightarrow> (Inl e, r)
           | Inr val \<Rightarrow> (Inr val, r\<lparr>pos := pos r + 2\<rparr>))"

definition readBytes :: "nat \<Rightarrow> byte list reading" where
  "readBytes n r =
     (if pos r + n > len r then (Inl (ReadBeyond (pos r) n (len r)), r)
      else case Uint8Array_view (view r) (int (pos r)) n of
             Inl e \<Rightarrow> (Inl e, r)
           | Inr val \<Rightarrow> (Inr val, r\<lparr>pos := pos r + n\<rparr>))"

text \<open>
  \<^verbatim>\<open>new TextDecoder().decode\<close> is the platform's: it never throws (malformed
  input decodes to replacement characters), so it is a parameter \<open>dec\<close>.
\<close>

definition readString :: "(byte list \<Rightarrow> string) \<Rightarrow> nat \<Rightarrow> string reading" where
  "readString dec n = bindR (readBytes n) (\<lambda>bs. returnR (dec bs))"

section \<open>The three records of the format\<close>

record EndOfCentralDirectoryRecord =
  numberOfThisDisk :: nat
  numberOfTheDiskWithTheStartOfTheCentralDirectory :: nat
  totalNumberOfEntriesInTheCentralDirectoryOnThisDisk :: nat
  totalNumberOfEntriesInTheCentralDirectory :: nat
  sizeOfTheCentralDirectory :: nat
  offsetOfStartOfCentralDirectoryWithRespectToTheStartingDiskNumber :: nat
  dotZipFileCommentLength :: nat

record LocalFileHeader =
  versionNeededToExtract :: nat
  generalPurposeBitFlag :: nat
  compressionMethod :: nat
  lastModFileTime :: nat
  lastModFileDate :: nat
  crc32 :: nat
  compressedSize :: nat
  uncompressedSize :: nat
  fileName :: string
  extraField :: "byte list"

record CentralDirectoryEntry =
  versionMadeBy :: nat
  versionNeededToExtract :: nat
  generalPurposeBitFlag :: nat
  compressionMethod :: nat
  lastModFileTime :: nat
  lastModFileDate :: nat
  crc32 :: nat
  compressedSize :: nat
  uncompressedSize :: nat
  diskNumberStart :: nat
  internalFileAttributes :: nat
  externalFileAttributes :: nat
  relativeOffsetOfLocalHeader :: nat
  fileName :: string
  extraField :: "byte list"
  fileComment :: "byte list"

definition readEndOfCentralDirectoryRecord :: "EndOfCentralDirectoryRecord reading" where
  "readEndOfCentralDirectoryRecord =
     bindR readU4 (\<lambda>sig.
     if sig \<noteq> 0x06054b50 then throwR NotImplemented else
     bindR readU2 (\<lambda>a1. bindR readU2 (\<lambda>a2. bindR readU2 (\<lambda>a3. bindR readU2 (\<lambda>a4.
     bindR readU4 (\<lambda>a5. bindR readU4 (\<lambda>a6. bindR readU2 (\<lambda>a7.
     if a7 \<noteq> 0 then throwR NotImplemented else
     returnR \<lparr>
       numberOfThisDisk = a1,
       numberOfTheDiskWithTheStartOfTheCentralDirectory = a2,
       totalNumberOfEntriesInTheCentralDirectoryOnThisDisk = a3,
       totalNumberOfEntriesInTheCentralDirectory = a4,
       sizeOfTheCentralDirectory = a5,
       offsetOfStartOfCentralDirectoryWithRespectToTheStartingDiskNumber = a6,
       dotZipFileCommentLength = a7 \<rparr>))))))))"

definition readCentralDirectoryEntry ::
  "(byte list \<Rightarrow> string) \<Rightarrow> CentralDirectoryEntry reading" where
  "readCentralDirectoryEntry dec =
     bindR readU4 (\<lambda>sig.
     if sig \<noteq> 0x02014b50 then throwR SignatureMismatch else
     bindR readU2 (\<lambda>b1. bindR readU2 (\<lambda>b2. bindR readU2 (\<lambda>b3. bindR readU2 (\<lambda>b4.
     bindR readU2 (\<lambda>b5. bindR readU2 (\<lambda>b6. bindR readU4 (\<lambda>b7. bindR readU4 (\<lambda>b8.
     bindR readU4 (\<lambda>b9. bindR readU2 (\<lambda>fileNameLength. bindR readU2 (\<lambda>extraFieldLength.
     bindR readU2 (\<lambda>fileCommentLength. bindR readU2 (\<lambda>b10. bindR readU2 (\<lambda>b11.
     bindR readU4 (\<lambda>b12. bindR readU4 (\<lambda>b13.
     bindR (readString dec fileNameLength) (\<lambda>b14.
     bindR (readBytes extraFieldLength) (\<lambda>b15.
     bindR (readBytes fileCommentLength) (\<lambda>b16.
     returnR \<lparr>
       versionMadeBy = b1,
       CentralDirectoryEntry.versionNeededToExtract = b2,
       CentralDirectoryEntry.generalPurposeBitFlag = b3,
       CentralDirectoryEntry.compressionMethod = b4,
       CentralDirectoryEntry.lastModFileTime = b5,
       CentralDirectoryEntry.lastModFileDate = b6,
       CentralDirectoryEntry.crc32 = b7,
       CentralDirectoryEntry.compressedSize = b8,
       CentralDirectoryEntry.uncompressedSize = b9,
       diskNumberStart = b10,
       internalFileAttributes = b11,
       externalFileAttributes = b12,
       relativeOffsetOfLocalHeader = b13,
       CentralDirectoryEntry.fileName = b14,
       CentralDirectoryEntry.extraField = b15,
       fileComment = b16 \<rparr>))))))))))))))))))))"

definition readLocalFileHeader :: "(byte list \<Rightarrow> string) \<Rightarrow> LocalFileHeader reading" where
  "readLocalFileHeader dec =
     bindR readU4 (\<lambda>sig.
     if sig \<noteq> 0x04034b50 then throwR SignatureMismatch else
     bindR readU2 (\<lambda>c1. bindR readU2 (\<lambda>c2. bindR readU2 (\<lambda>c3. bindR readU2 (\<lambda>c4.
     bindR readU2 (\<lambda>c5. bindR readU4 (\<lambda>c6. bindR readU4 (\<lambda>c7. bindR readU4 (\<lambda>c8.
     bindR readU2 (\<lambda>fileNameLength. bindR readU2 (\<lambda>extraFieldLength.
     bindR (readString dec fileNameLength) (\<lambda>c9.
     bindR (readBytes extraFieldLength) (\<lambda>c10.
     returnR \<lparr>
       LocalFileHeader.versionNeededToExtract = c1,
       LocalFileHeader.generalPurposeBitFlag = c2,
       LocalFileHeader.compressionMethod = c3,
       LocalFileHeader.lastModFileTime = c4,
       LocalFileHeader.lastModFileDate = c5,
       LocalFileHeader.crc32 = c6,
       LocalFileHeader.compressedSize = c7,
       LocalFileHeader.uncompressedSize = c8,
       LocalFileHeader.fileName = c9,
       LocalFileHeader.extraField = c10 \<rparr>)))))))))))))"

section \<open>unzip: the catalog and its lazily opened entries\<close>

text \<open>
  What \<^verbatim>\<open>open()\<close> returns: the stream of a \<^verbatim>\<open>Blob\<close> holding a copy of the bytes
  read, or that stream piped through the platform's
  \<^verbatim>\<open>DecompressionStream("deflate-raw")\<close>.
\<close>

datatype stream =
    BlobStream "byte list"
  | PipeThroughDeflateRaw stream

text \<open>
  A catalog entry is its name and the closure \<^verbatim>\<open>open\<close>. The closure captures
  the directory record \<^verbatim>\<open>cde\<close> of its iteration and the one \<^verbatim>\<open>reader\<close> of the
  archive; the record is the field \<open>cde\<close>, the reader is threaded through
  \<open>ZipEntry_open\<close>.
\<close>

record ZipEntry =
  name :: string
  cde :: CentralDirectoryEntry

definition ZipEntry_open :: "(byte list \<Rightarrow> string) \<Rightarrow> ZipEntry \<Rightarrow> stream reading" where
  "ZipEntry_open dec e =
     bindR (seek (int (relativeOffsetOfLocalHeader (cde e)))) (\<lambda>_.
     bindR (readLocalFileHeader dec) (\<lambda>_.
     bindR (readBytes (CentralDirectoryEntry.compressedSize (cde e))) (\<lambda>bytes.
     let rawStream = BlobStream bytes in
     if CentralDirectoryEntry.compressionMethod (cde e) = 0 then returnR rawStream
     else if CentralDirectoryEntry.compressionMethod (cde e) = 8
       then returnR (PipeThroughDeflateRaw rawStream)
     else throwR (NotSupported (CentralDirectoryEntry.compressionMethod (cde e))))))"

text \<open>
  The first three statements of \<^verbatim>\<open>open\<close> on their own: seek to the local
  header, read it, read the payload.
\<close>

definition read_payload :: "(byte list \<Rightarrow> string) \<Rightarrow> nat \<Rightarrow> nat \<Rightarrow> byte list reading" where
  "read_payload dec off n =
     bindR (seek (int off)) (\<lambda>_. bindR (readLocalFileHeader dec) (\<lambda>_. readBytes n))"

text \<open>
  The catalog is the plain object \<^verbatim>\<open>{}\<close> that \<^verbatim>\<open>unzip\<close> fills by
  \<^verbatim>\<open>records[cde.fileName] = ...\<close>: its own properties, and its prototype
  (\<open>None\<close> is the prototype every object literal starts with). The
  assignment creates or overwrites an own property for every key but
  \<^verbatim>\<open>__proto__\<close>: for that key it runs the setter inherited from the first
  prototype, which makes the assigned entry the prototype of the catalog and
  creates no own property. \<^verbatim>\<open>Object.values\<close>, by which \<^verbatim>\<open>unjar\<close> walks
  the catalog, sees the own properties only.
\<close>

record catalog =
  own :: "string \<rightharpoonup> ZipEntry"
  proto :: "ZipEntry option"

definition empty_object :: catalog where
  "empty_object = \<lparr>own = Map.empty, proto = None\<rparr>"

definition set_property :: "string \<Rightarrow> ZipEntry \<Rightarrow> catalog \<Rightarrow> catalog" where
  "set_property k v records =
     (if k = ''__proto__'' then records\<lparr>proto := Some v\<rparr>
      else records\<lparr>own := (own records)(k \<mapsto> v)\<rparr>)"

text \<open>The \<^verbatim>\<open>for\<close> loop of \<^verbatim>\<open>unzip\<close>, from index \<open>i\<close> on.\<close>

function unzip_loop ::
  "(byte list \<Rightarrow> string) \<Rightarrow> nat \<Rightarrow> nat \<Rightarrow> catalog \<Rightarrow> catalog reading" where
  "unzip_loop dec i n records r =
     (if i < n then
        (case readCentralDirectoryEntry dec r of
           (Inl e, r') \<Rightarrow> (Inl e, r')
         | (Inr c, r') \<Rightarrow>
             unzip_loop dec (i + 1) n
               (set_property (CentralDirectoryEntry.fileName c)
                  \<lparr>name = CentralDirectoryEntry.fileName c, cde = c\<rparr> records) r')
      else (Inr records, r))"
  by pat_completeness auto
termination
  by (relation "measure (\<lambda>(dec, i, n, records, r). n - i)") auto

declare unzip_loop.simps [simp del]

definition unzip :: "(byte list \<Rightarrow> string) \<Rightarrow> byte list \<Rightarrow> (error + catalog) \<times> Reader" where
  "unzip dec buf =
     (let reader = \<lparr>view = buf, pos = 0\<rparr> in
      bindR (seek (- 22)) (\<lambda>_.
      bindR readEndOfCentralDirectoryRecord (\<lambda>eocd.
      bindR (seek (int
        (offsetOfStartOfCentralDirectoryWithRespectToTheStartingDiskNumber eocd))) (\<lambda>_.
      unzip_loop dec 0 (totalNumberOfEntriesInTheCentralDirectoryOnThisDisk eocd)
        empty_object))) reader)"

text \<open>
  The directory records that \<open>k\<close> successive calls of
  \<open>readCentralDirectoryEntry\<close> decode, in directory order: the iterations of
  the loop, without the catalog.
\<close>

fun read_entries ::
  "(byte list \<Rightarrow> string) \<Rightarrow> nat \<Rightarrow> CentralDirectoryEntry list reading" where
  "read_entries dec 0 r = (Inr [], r)"
| "read_entries dec (Suc k) r =
     (case readCentralDirectoryEntry dec r of
        (Inl e, r') \<Rightarrow> (Inl e, r')
      | (Inr c, r') \<Rightarrow>
          (case read_entries dec k r' of
             (Inl e, r'') \<Rightarrow> (Inl e, r'')
           | (Inr cs, r'') \<Rightarrow> (Inr (c # cs), r'')))"

text \<open>The assignment one iteration makes.\<close>

definition put_entry :: "CentralDirectoryEntry \<Rightarrow> catalog \<Rightarrow> catalog" where
  "put_entry c records =
     set_property (CentralDirectoryEntry.fileName c)
       \<lparr>name = CentralDirectoryEntry.fileName c, cde = c\<rparr> records"

text \<open>
  A caller that opens entries one after the other, each call on the reader
  as the call before left it.
\<close>

fun open_in_turn ::
  "(byte list \<Rightarrow> string) \<Rightarrow> ZipEntry list \<Rightarrow> Reader \<Rightarrow> (error + stream) list \<times> Reader" where
  "open_in_turn dec [] r = ([], r)"
| "open_in_turn dec (e # es) r =
     (case ZipEntry_open dec e r of
        (x, r') \<Rightarrow> (case open_in_turn dec es r' of (xs, r'') \<Rightarrow> (x # xs, r'')))"

text \<open>The fields of the formats at their offsets, for stating where the parser looks.\<close>

definition u16 :: "byte list \<Rightarrow> nat \<Rightarrow> nat" where
  "u16 buf p = le_nat (bytes_at buf p 2)"

definition u32 :: "byte list \<Rightarrow> nat \<Rightarrow> nat" where
  "u32 buf p = le_nat (bytes_at buf p 4)"

text \<open>
  The directory of an archive as its trailer describes it: the this-disk entry
  count at offset 8 of the trailer, the directory start at offset 16, the
  trailer being the last 22 bytes.
\<close>

definition trailer_count :: "byte list \<Rightarrow> nat" where
  "trailer_count buf = u16 buf (length buf - 22 + 8)"

definition trailer_offset :: "byte list \<Rightarrow> nat" where
  "trailer_offset buf = u32 buf (length buf - 22 + 16)"

definition directory_records ::
  "(byte list \<Rightarrow> string) \<Rightarrow> byte list \<Rightarrow> error + CentralDirectoryEntry list" where
  "directory_records dec buf =
     fst (read_entries dec (trailer_count buf) \<lparr>view = buf, pos = trailer_offset buf\<rparr>)"

text \<open>Where the payload of an entry starts: the end of the local header at \<open>off\<close>.\<close>

definition payload_start :: "byte list \<Rightarrow> nat \<Rightarrow> nat" where
  "payload_start buf off = off + 30 + u16 buf (off + 26) + u16 buf (off + 28)"

text \<open>
  The errors the cursor raises by its own checks, and the property that a
  reading leaves the buffer as it was and raises only errors of a given kind.
\<close>

fun cursor_error :: "error \<Rightarrow> bool" where
  "cursor_error (SeekNegative _) = True"
| "cursor_error (SeekBeyond _) = True"
| "cursor_error (ReadBeyond _ _ _) = True"
| "cursor_error _ = False"

definition reading_ok :: "(error \<Rightarrow> bool) \<Rightarrow> 'a reading \<Rightarrow> bool" where
  "reading_ok P m \<longleftrightarrow>
     (\<forall>r. view (snd (m r)) = view r \<and> (\<forall>e. fst (m r) = Inl e \<longrightarrow> P e))"

section \<open>The module bridge of \<^verbatim>\<open>classfile.ts\<close>\<close>

text \<open>
  \<^verbatim>\<open>DataView.setUint32(p, v, true)\<close>: the value is reduced modulo \<open>2^32\<close>
  (ToUint32), stored in four bytes; a \<open>RangeError\<close> outside the buffer.
\<close>

definition store :: "byte list \<Rightarrow> nat \<Rightarrow> byte list \<Rightarrow> byte list" where
  "store buf p bs = take p buf @ bs @ drop (p + length bs) buf"

definition setUint32 :: "byte list \<Rightarrow> int \<Rightarrow> int \<Rightarrow> error + byte list" where
  "setUint32 buf p v =
     (if p < 0 \<or> p + 4 > int (length buf) then Inl RangeError
      else Inr (store buf (nat p) (le_bytes 4 (nat (v mod 2 ^ 32)))))"

text \<open>
  \<^verbatim>\<open>Uint8Array.prototype.slice(n)\<close>: a copy from index \<open>n\<close> on; a negative \<open>n\<close>
  counts from the end, and the start is clamped to the array.
\<close>

definition slice :: "byte list \<Rightarrow> int \<Rightarrow> byte list" where
  "slice b n =
     drop (nat (if n < 0 then max (int (length b) + n) 0 else min n (int (length b)))) b"

text \<open>
  The callbacks bound by \<^verbatim>\<open>setup\<close> are closures over variables of their own
  (\<^verbatim>\<open>input\<close>, \<^verbatim>\<open>output\<close>): the type \<open>'w\<close> holds those variables. A callback is
  handed a byte view and returns a number, or throws. \<^verbatim>\<open>Read\<close> fills its view:
  it returns, with the count, the bytes it left at the front of the view.
  \<^verbatim>\<open>Write\<close> only reads its view. A callback that throws leaves the memory
  as it was.
\<close>

type_synonym 'w Read = "byte list \<Rightarrow> 'w \<Rightarrow> (error + int \<times> byte list) \<times> 'w"
type_synonym 'w Write = "byte list \<Rightarrow> 'w \<Rightarrow> (error + int) \<times> 'w"

text \<open>The variables \<^verbatim>\<open>wasip1()\<close> closes over, and those of the callbacks.\<close>

record 'w wasip1 =
  memory :: "byte list option"
  stdin :: "'w Read"
  stdout :: "'w Write"
  stderr :: "'w Write"
  world :: 'w

definition wasip1_new :: "'w \<Rightarrow> 'w wasip1" where
  "wasip1_new w =
     \<lparr> memory = None,
       stdin = (\<lambda>b w. (Inl (NotSet ''stdin''), w)),
       stdout = (\<lambda>b w. (Inl (NotSet ''stdout''), w)),
       stderr = (\<lambda>b w. (Inl (NotSet ''stderr''), w)),
       world = w \<rparr>"

definition initialize :: "byte list \<Rightarrow> 'w wasip1 \<Rightarrow> 'w wasip1" where
  "initialize m st = st\<lparr>memory := Some m\<rparr>"

text \<open>\<^verbatim>\<open>ctrl.setup\<close> (the bare name is a keyword of the prover).\<close>

definition ctrl_setup :: "'w Read \<Rightarrow> 'w Write \<Rightarrow> 'w Write \<Rightarrow> 'w wasip1 \<Rightarrow> 'w wasip1" where
  "ctrl_setup i out err st = st\<lparr>stdin := i, stdout := out, stderr := err\<rparr>"

text \<open>
  \<^verbatim>\<open>fd_read\<close>. The body of its \<^verbatim>\<open>for\<close> loop ends in \<^verbatim>\<open>break\<close>: it runs for
  \<open>i = 0\<close> when \<open>0 < iovslen\<close>, and never again. (The local \<^verbatim>\<open>len\<close> of this
  call and of \<^verbatim>\<open>fd_write\<close> is \<open>len_i\<close> here, \<open>len\<close> being the cursor's getter.)
\<close>

definition fd_read :: "int \<Rightarrow> int \<Rightarrow> int \<Rightarrow> int \<Rightarrow> 'w wasip1 \<Rightarrow> (error + int) \<times> 'w wasip1" where
  "fd_read fd iovsptr iovslen readptr st =
     (case memory st of
        None \<Rightarrow> (Inl MemoryNotSet, st)
      | Some mem \<Rightarrow>
          if fd \<noteq> 0 then (Inr 8, st)
          else
            (case
               (if 0 < iovslen then
                  (case getUint32 mem (iovsptr + (0 * 8) + 0) of
                     Inl e \<Rightarrow> (Inl e, world st)
                   | Inr buf \<Rightarrow>
                  (case getUint32 mem (iovsptr + (0 * 8) + 4) of
                     Inl e \<Rightarrow> (Inl e, world st)
                   | Inr len_i \<Rightarrow>
                  (case Uint8Array_view mem (int buf) len_i of
                     Inl e \<Rightarrow> (Inl e, world st)
                   | Inr b \<Rightarrow>
                  (case stdin st b (world st) of
                     (Inl e, w') \<Rightarrow> (Inl e, w')
                   | (Inr (n, filled), w') \<Rightarrow>
                       (Inr (0 + n, store mem buf (take len_i filled)), w')))))
                else (Inr (0, mem), world st))
             of
               (Inl e, w') \<Rightarrow> (Inl e, st\<lparr>world := w'\<rparr>)
             | (Inr (nread, mem1), w') \<Rightarrow>
                 (case setUint32 mem1 readptr nread of
                    Inl e \<Rightarrow> (Inl e, st\<lparr>memory := Some mem1, world := w'\<rparr>)
                  | Inr mem2 \<Rightarrow> (Inr 0, st\<lparr>memory := Some mem2, world := w'\<rparr>))))"

text \<open>
  \<^verbatim>\<open>fd_write\<close>. The inner \<^verbatim>\<open>while (b.length > 0)\<close> has no bound of its
  own: \<open>None\<close> is the loop that never ends.
\<close>

partial_function (option) fd_write_while ::
  "'w Write \<Rightarrow> byte list \<Rightarrow> int \<Rightarrow> 'w \<Rightarrow> ((error + int) \<times> 'w) option" where
  "fd_write_while w b written wd =
     (if length b > 0 then
        (case w b wd of
           (Inl e, wd') \<Rightarrow> Some (Inl e, wd')
         | (Inr n, wd') \<Rightarrow> fd_write_while w (slice b n) (written + n) wd')
      else Some (Inr written, wd))"

function fd_write_for ::
  "'w Write \<Rightarrow> byte list \<Rightarrow> int \<Rightarrow> int \<Rightarrow> int \<Rightarrow> int \<Rightarrow> 'w \<Rightarrow> ((error + int) \<times> 'w) option" where
  "fd_write_for w mem ciovsptr i ciovslen written wd =
     (if i < ciovslen then
        (case getUint32 mem (ciovsptr + (i * 8) + 0) of
           Inl e \<Rightarrow> Some (Inl e, wd)
         | Inr buf \<Rightarrow>
        (case getUint32 mem (ciovsptr + (i * 8) + 4) of
           Inl e \<Rightarrow> Some (Inl e, wd)
         | Inr len_i \<Rightarrow>
        (case Uint8Array_view mem (int buf) len_i of
           Inl e \<Rightarrow> Some (Inl e, wd)
         | Inr b \<Rightarrow>
        (case fd_write_while w b written wd of
           None \<Rightarrow> None
         | Some (Inl e, wd') \<Rightarrow> Some (Inl e, wd')
         | Some (Inr written', wd') \<Rightarrow>
             fd_write_for w mem ciovsptr (i + 1) ciovslen written' wd'))))
      else Some (Inr written, wd))"
  by pat_completeness auto
termination
  by (relation "measure (\<lambda>(w, mem, ciovsptr, i, ciovslen, written, wd). nat (ciovslen - i))") auto

declare fd_write_for.simps [simp del]

definition fd_write ::
  "int \<Rightarrow> int \<Rightarrow> int \<Rightarrow> int \<Rightarrow> 'w wasip1 \<Rightarrow> ((error + int) \<times> 'w wasip1) option" where
  "fd_write fd ciovsptr ciovslen writtenptr st =
     (case memory st of
        None \<Rightarrow> Some (Inl MemoryNotSet, st)
      | Some mem \<Rightarrow>
          (case (if fd = 1 then Some (stdout st) else if fd = 2 then Some (stderr st) else None) of
             None \<Rightarrow> Some (Inr 8, st)
           | Some w \<Rightarrow>
               (case fd_write_for w mem ciovsptr 0 ciovslen 0 (world st) of
                  None \<Rightarrow> None
                | Some (Inl e, wd') \<Rightarrow> Some (Inl e, st\<lparr>world := wd'\<rparr>)
                | Some (Inr written, wd') \<Rightarrow>
                    (case setUint32 mem writtenptr written of
                       Inl e \<Rightarrow> Some (Inl e, st\<lparr>world := wd'\<rparr>)
                     | Inr mem' \<Rightarrow> Some (Inr 0, st\<lparr>memory := Some mem', world := wd'\<rparr>)))))"

text \<open>
  The callbacks that \<^verbatim>\<open>parse\<close> binds, over the variables they close over:
  \<^verbatim>\<open>input\<close>, \<^verbatim>\<open>output\<close> (here \<open>output_chunks\<close>, the bare name being a keyword
  of the prover), and the chunks handed to \<^verbatim>\<open>console.error\<close>.
\<close>

record parse_vars =
  input :: "byte list"
  output_chunks :: "byte list list"
  console_chunks :: "byte list list"

definition parse_stdin :: "parse_vars Read" where
  "parse_stdin buf v =
     (let n = min (length buf) (length (input v)) in
      (Inr (int n, take n (input v)), v\<lparr>input := drop n (input v)\<rparr>))"

definition parse_stdout :: "parse_vars Write" where
  "parse_stdout buf v = (Inr (int (length buf)), v\<lparr>output_chunks := output_chunks v @ [buf]\<rparr>)"

definition parse_stderr :: "parse_vars Write" where
  "parse_stderr buf v = (Inr (int (length buf)), v\<lparr>console_chunks := console_chunks v @ [buf]\<rparr>)"

section \<open>Observing the callbacks\<close>

text \<open>
  A provider that also records the length of every view it is called with, and
  a consumer that also records the bytes it accepts: any callback, wrapped.
\<close>

definition counted_read :: "'w Read \<Rightarrow> ('w \<times> nat list) Read" where
  "counted_read rd b wc =
     (case rd b (fst wc) of (x, w') \<Rightarrow> (x, (w', snd wc @ [length b])))"

definition accepting :: "'w Write \<Rightarrow> ('w \<times> byte list) Write" where
  "accepting wr b wa =
     (case wr b (fst wa) of
        (Inl e, w') \<Rightarrow> (Inl e, (w', snd wa))
      | (Inr n, w') \<Rightarrow> (Inr n, (w', snd wa @ take (nat n) b)))"

text \<open>
  The vector list of a call: \<open>k\<close> pairs of address and length, eight bytes each,
  from address \<open>p\<close> on; that the list and the ranges it names lie in memory;
  the bytes the list names.
\<close>

fun iovecs :: "byte list \<Rightarrow> int \<Rightarrow> nat \<Rightarrow> (nat \<times> nat) list" where
  "iovecs mem p 0 = []"
| "iovecs mem p (Suc k) = (u32 mem (nat p), u32 mem (nat p + 4)) # iovecs mem (p + 8) k"

fun iovecs_in_memory :: "byte list \<Rightarrow> int \<Rightarrow> nat \<Rightarrow> bool" where
  "iovecs_in_memory mem p 0 = True"
| "iovecs_in_memory mem p (Suc k) =
     (0 \<le> p \<and> p + 8 \<le> int (length mem)
      \<and> u32 mem (nat p) + u32 mem (nat p + 4) \<le> length mem
      \<and> iovecs_in_memory mem (p + 8) k)"

definition iovec_bytes :: "byte list \<Rightarrow> (nat \<times> nat) list \<Rightarrow> byte list" where
  "iovec_bytes mem vs = concat (map (\<lambda>(buf, n). bytes_at mem buf n) vs)"

text \<open>A consumer that never accepts a byte, and one that accepts one byte a call.\<close>

definition stalled :: "unit Write" where
  "stalled b w = (Inr 0, w)"

definition one_byte :: "unit Write" where
  "one_byte b w = (Inr 1, w)"

section \<open>Concrete inputs\<close>

text \<open>Bytes to characters one to one, standing for the platform's decoder on ASCII names.\<close>

definition latin1 :: "byte list \<Rightarrow> string" where
  "latin1 bs = map (\<lambda>b. char_of (unat b)) bs"

text \<open>
  An archive of three stored entries: \<open>a\<close> holding \<open>hi\<close> (method 0), \<open>b\<close> holding
  \<open>x\<close> (method 99), and a second \<open>a\<close> holding \<open>yo!\<close> (method 0). Local headers at
  0, 33 and 65, the directory at 99, the trailer at 240.
\<close>

definition demo_zip :: "byte list" where
  "demo_zip =
  [80, 75, 3, 4, 20, 0, 0, 0, 0, 0, 0, 0, 0, 0, 0, 0, 0, 0, 2, 0, 0, 0, 2, 0,
    0, 0, 1, 0, 0, 0, 97, 104, 105, 80, 75, 3, 4, 20, 0, 0, 0, 99, 0, 0, 0, 0,
    0, 0, 0, 0, 0, 1, 0, 0, 0, 1, 0, 0, 0, 1, 0, 0, 0, 98, 120, 80, 75, 3, 4,
    20, 0, 0, 0, 0, 0, 0, 0, 0, 0, 0, 0, 0, 0, 3, 0, 0, 0, 3, 0, 0, 0, 1, 0,
    0, 0, 97, 121, 111, 33, 80, 75, 1, 2, 20, 0, 20, 0, 0, 0, 0, 0, 0, 0, 0,
    0, 0, 0, 0, 0, 2, 0, 0, 0, 2, 0, 0, 0, 1, 0, 0, 0, 0, 0, 0, 0, 0, 0, 0, 0,
    0, 0, 0, 0, 0, 0, 97, 80, 75, 1, 2, 20, 0, 20, 0, 0, 0, 99, 0, 0, 0, 0, 0,
    0, 0, 0, 0, 1, 0, 0, 0, 1, 0, 0, 0, 1, 0, 0, 0, 0, 0, 0, 0, 0, 0, 0, 0, 0,
    0, 33, 0, 0, 0, 98, 80, 75, 1, 2, 20, 0, 20, 0, 0, 0, 0, 0, 0, 0, 0, 0, 0,
    0, 0, 0, 3, 0, 0, 0, 3, 0, 0, 0, 1, 0, 0, 0, 0, 0, 0, 0, 0, 0, 0, 0, 0, 0,
    65, 0, 0, 0, 97, 80, 75, 5, 6, 0, 0, 0, 0, 3, 0, 3, 0, 141, 0, 0, 0, 99,
    0, 0, 0, 0, 0]"

text \<open>
  The archive of the single entry \<open>a\<close> whose trailer announces three entries:
  directory at 33, trailer at 80.
\<close>

definition trunc_zip :: "byte list" where
  "trunc_zip =
  [80, 75, 3, 4, 20, 0, 0, 0, 0, 0, 0, 0, 0, 0, 0, 0, 0, 0, 2, 0, 0, 0, 2, 0,
    0, 0, 1, 0, 0, 0, 97, 104, 105, 80, 75, 1, 2, 20, 0, 20, 0, 0, 0, 0, 0, 0,
    0, 0, 0, 0, 0, 0, 0, 2, 0, 0, 0, 2, 0, 0, 0, 1, 0, 0, 0, 0, 0, 0, 0, 0, 0,
    0, 0, 0, 0, 0, 0, 0, 0, 97, 80, 75, 5, 6, 0, 0, 0, 0, 3, 0, 3, 0, 47, 0,
    0, 0, 33, 0, 0, 0, 0, 0]"

text \<open>The three directory records of \<open>demo_zip\<close>, and their catalog entries.\<close>

definition demo_record :: "nat \<Rightarrow> nat \<Rightarrow> nat \<Rightarrow> string \<Rightarrow> CentralDirectoryEntry" where
  "demo_record m n off nm =
     \<lparr> versionMadeBy = 20,
       CentralDirectoryEntry.versionNeededToExtract = 20,
       CentralDirectoryEntry.generalPurposeBitFlag = 0,
       CentralDirectoryEntry.compressionMethod = m,
       CentralDirectoryEntry.lastModFileTime = 0,
       CentralDirectoryEntry.lastModFileDate = 0,
       CentralDirectoryEntry.crc32 = 0,
       CentralDirectoryEntry.compressedSize = n,
       CentralDirectoryEntry.uncompressedSize = n,
       diskNumberStart = 0,
       internalFileAttributes = 0,
       externalFileAttributes = 0,
       relativeOffsetOfLocalHeader = off,
       CentralDirectoryEntry.fileName = nm,
       CentralDirectoryEntry.extraField = [],
       fileComment = [] \<rparr>"

definition demo_records :: "CentralDirectoryEntry list" where
  "demo_records =
     [demo_record 0 2 0 ''a'', demo_record 99 1 33 ''b'', demo_record 0 3 65 ''a'']"

definition entry_of :: "CentralDirectoryEntry \<Rightarrow> ZipEntry" where
  "entry_of c = \<lparr>name = CentralDirectoryEntry.fileName c, cde = c\<rparr>"

text \<open>
  A memory of 32 bytes: two vectors at address 0, naming the ranges \<open>[16, 20)\<close>
  and \<open>[20, 23)\<close>; the bytes 1 to 7 in those ranges; the result location at 24.
\<close>

definition demo_memory :: "byte list" where
  "demo_memory =
     [16, 0, 0, 0, 4, 0, 0, 0,  20, 0, 0, 0, 3, 0, 0, 0,
      1, 2, 3, 4,  5, 6, 7, 0,  0, 0, 0, 0, 0, 0, 0, 0]"

definition demo_vars :: parse_vars where
  "demo_vars = \<lparr>input = [9, 8], output_chunks = [], console_chunks = []\<rparr>"

definition reading_bridge :: "(parse_vars \<times> nat list) wasip1" where
  "reading_bridge =
     (initialize demo_memory (wasip1_new (demo_vars, [])))
       \<lparr>stdin := counted_read parse_stdin\<rparr>"

definition writing_bridge :: "unit Write \<Rightarrow> (unit \<times> byte list) wasip1" where
  "writing_bridge wr =
     (initialize demo_memory (wasip1_new ((), [])))
       \<lparr>stdout := accepting wr, stderr := accepting wr\<rparr>"

definition stalled_bridge :: "unit wasip1" where
  "stalled_bridge =
     ctrl_setup (\<lambda>b w. (Inl (NotSet ''stdin''), w)) stalled stalled
       (initialize demo_memory (wasip1_new ()))"




text \<open>
  The archive of the single entry \<open>a\<close>, 102 bytes long, whose trailer gives
  1000 as the size of the central directory: directory at 33, trailer at 80.
\<close>

definition bigdir_zip :: "byte list" where
  "bigdir_zip =
  [80, 75, 3, 4, 20, 0, 0, 0, 0, 0, 0, 0, 0, 0, 0, 0, 0, 0, 2, 0, 0, 0, 2, 0,
   0, 0, 1, 0, 0, 0, 97, 104, 105, 80, 75, 1, 2, 20, 0, 20, 0, 0, 0, 0, 0, 0,
   0, 0, 0, 0, 0, 0, 0, 2, 0, 0, 0, 2, 0, 0, 0, 1, 0, 0, 0, 0, 0, 0, 0, 0, 0,
   0, 0, 0, 0, 0, 0, 0, 0, 97, 80, 75, 5, 6, 0, 0, 0, 0, 1, 0, 1, 0, 232, 3,
   0, 0, 33, 0, 0, 0, 0, 0]"

definition bigdir_catalog :: catalog where
  "bigdir_catalog =
     \<lparr> own = [''a'' \<mapsto> entry_of (demo_record 0 2 0 ''a'')], proto = None \<rparr>"

text \<open>A consumer that accepts every slice whole, as the two of \<^verbatim>\<open>parse\<close> do.\<close>

definition whole :: "unit Write" where
  "whole b w = (Inr (int (length b)), w)"

text \<open>A memory of 32 bytes whose one vector names the range \<open>[16, 116)\<close>.\<close>

definition bad_memory :: "byte list" where
  "bad_memory =
     [16, 0, 0, 0, 100, 0, 0, 0,  0, 0, 0, 0, 0, 0, 0, 0,
      1, 2, 3, 4,  5, 6, 7, 0,  0, 0, 0, 0, 0, 0, 0, 0]"

text \<open>
  A memory of 32769 pages (\<open>2^31 + 65536\<close> bytes), all zero but for two vectors
  at address 0 that both name the range \<open>[0, 2^31)\<close>; the result location
  is 16.
\<close>

definition zeros :: "byte list" where
  "zeros = replicate (2 ^ 31 + 65516) 0"

definition wrap_memory :: "byte list" where
  "wrap_memory =
     [0, 0, 0, 0, 0, 0, 0, 128,  0, 0, 0, 0, 0, 0, 0, 128,  0, 0, 0, 0] @ zeros"

definition writing_bridge_on :: "byte list \<Rightarrow> unit Write \<Rightarrow> (unit \<times> byte list) wasip1" where
  "writing_bridge_on m wr =
     (initialize m (wasip1_new ((), [])))
       \<lparr>stdout := accepting wr, stderr := accepting wr\<rparr>"

definition unbound_bridge :: "(unit \<times> byte list) wasip1" where
  "unbound_bridge =
     (wasip1_new ((), []))\<lparr>stdout := accepting whole, stderr := accepting whole\<rparr>"

section \<open>Properties of the cursor and the parsers\<close>


subsection \<open>The cursor's methods\<close>

lemma seek_eq:
  "seek p r =
     (let q = (if p < 0 then int (length (view r)) + p else p) in
      if q < 0 then (Inl (SeekNegative q), r)
      else if q > int (length (view r)) then (Inl (SeekBeyond q), r)
      else (Inr (), r\<lparr>pos := nat q\<rparr>))"
  by (simp add: seek_def len_def Let_def)

lemma seek_nat:
  "seek (int n) r =
     (if n \<le> length (view r) then (Inr (), r\<lparr>pos := n\<rparr>)
      else (Inl (SeekBeyond (int n)), r))"
  by (simp add: seek_eq)

lemma readU2_eq:
  "readU2 r =
     (if pos r + 2 \<le> length (view r)
      then (Inr (u16 (view r) (pos r)), r\<lparr>pos := pos r + 2\<rparr>)
      else (Inl (ReadBeyond (pos r) 2 (length (view r))), r))"
  by (auto simp: readU2_def len_def getUint16_def getUint_def u16_def)

lemma readU4_eq:
  "readU4 r =
     (if pos r + 4 \<le> length (view r)
      then (Inr (u32 (view r) (pos r)), r\<lparr>pos := pos r + 4\<rparr>)
      else (Inl (ReadBeyond (pos r) 4 (length (view r))), r))"
  by (auto simp: readU4_def len_def getUint32_def getUint_def u32_def)

lemma readBytes_eq:
  "readBytes n r =
     (if pos r + n \<le> length (view r)
      then (Inr (bytes_at (view r) (pos r) n), r\<lparr>pos := pos r + n\<rparr>)
      else (Inl (ReadBeyond (pos r) n (length (view r))), r))"
  by (auto simp: readBytes_def len_def Uint8Array_view_def)

lemma readString_eq:
  "readString dec n r =
     (if pos r + n \<le> length (view r)
      then (Inr (dec (bytes_at (view r) (pos r) n)), r\<lparr>pos := pos r + n\<rparr>)
      else (Inl (ReadBeyond (pos r) n (length (view r))), r))"
  by (simp add: readString_def bindR_def returnR_def readBytes_eq)

subsection \<open>Successful readings\<close>

lemma bindR_Inr_iff:
  "bindR m f r = (Inr y, r'') \<longleftrightarrow> (\<exists>x r'. m r = (Inr x, r') \<and> f x r' = (Inr y, r''))"
  by (auto simp: bindR_def split: prod.splits sum.splits)

lemma bindR_Inl_iff:
  "bindR m f r = (Inl e, r'') \<longleftrightarrow>
     m r = (Inl e, r'') \<or> (\<exists>x r'. m r = (Inr x, r') \<and> f x r' = (Inl e, r''))"
  by (auto simp: bindR_def split: prod.splits sum.splits)

lemma throwR_Inr_iff: "throwR e r = (Inr y, r') \<longleftrightarrow> False"
  by (simp add: throwR_def)

lemma returnR_Inr_iff: "returnR x r = (Inr y, r') \<longleftrightarrow> y = x \<and> r' = r"
  by (auto simp: returnR_def)

lemma readU2_Inr_iff:
  "readU2 r = (Inr v, r') \<longleftrightarrow>
     pos r + 2 \<le> length (view r) \<and> v = u16 (view r) (pos r) \<and> r' = r\<lparr>pos := pos r + 2\<rparr>"
  by (auto simp: readU2_eq)

lemma readU4_Inr_iff:
  "readU4 r = (Inr v, r') \<longleftrightarrow>
     pos r + 4 \<le> length (view r) \<and> v = u32 (view r) (pos r) \<and> r' = r\<lparr>pos := pos r + 4\<rparr>"
  by (auto simp: readU4_eq)

lemma readBytes_Inr_iff:
  "readBytes n r = (Inr v, r') \<longleftrightarrow>
     pos r + n \<le> length (view r) \<and> v = bytes_at (view r) (pos r) n
       \<and> r' = r\<lparr>pos := pos r + n\<rparr>"
  by (auto simp: readBytes_eq)

lemma readString_Inr_iff:
  "readString dec n r = (Inr v, r') \<longleftrightarrow>
     pos r + n \<le> length (view r) \<and> v = dec (bytes_at (view r) (pos r) n)
       \<and> r' = r\<lparr>pos := pos r + n\<rparr>"
  by (auto simp: readString_eq)

lemma seek_nat_Inr_iff:
  "seek (int n) r = (Inr u, r') \<longleftrightarrow> n \<le> length (view r) \<and> r' = r\<lparr>pos := n\<rparr>"
  by (auto simp: seek_nat)

lemma if_reading: "(if c then m else m') r = (if c then m r else m' (r::Reader))"
  by simp

lemmas reading_Inr_iffs = bindR_Inr_iff throwR_Inr_iff returnR_Inr_iff readU2_Inr_iff
  readU4_Inr_iff readBytes_Inr_iff readString_Inr_iff if_reading

lemma readEOCD_Inr_iff:
  "(\<exists>eocd. readEndOfCentralDirectoryRecord r = (Inr eocd, r')
      \<and> totalNumberOfEntriesInTheCentralDirectoryOnThisDisk eocd = n
      \<and> offsetOfStartOfCentralDirectoryWithRespectToTheStartingDiskNumber eocd = off) \<longleftrightarrow>
   pos r + 22 \<le> length (view r) \<and> u32 (view r) (pos r) = 0x06054b50
     \<and> u16 (view r) (pos r + 20) = 0
     \<and> n = u16 (view r) (pos r + 8) \<and> off = u32 (view r) (pos r + 16)
     \<and> r' = r\<lparr>pos := pos r + 22\<rparr>"
  unfolding readEndOfCentralDirectoryRecord_def
  by (auto simp add: reading_Inr_iffs add_ac split: if_splits)

lemma readCDE_Inr:
  assumes "readCentralDirectoryEntry dec r = (Inr c, r')"
  shows "pos r + 46 \<le> length (view r) \<and> u32 (view r) (pos r) = 0x02014b50
     \<and> pos r' = pos r + 46 + u16 (view r) (pos r + 28) + u16 (view r) (pos r + 30)
                  + u16 (view r) (pos r + 32)
     \<and> pos r' \<le> length (view r) \<and> view r' = view r
     \<and> CentralDirectoryEntry.compressionMethod c = u16 (view r) (pos r + 10)"
  using assms unfolding readCentralDirectoryEntry_def
  by (simp add: reading_Inr_iffs add_ac split: if_splits)

lemma readCDE_Inr_iff:
  "(\<exists>c. readCentralDirectoryEntry dec r = (Inr c, r')) \<longleftrightarrow>
     pos r + 46 \<le> length (view r) \<and> u32 (view r) (pos r) = 0x02014b50
     \<and> pos r + 46 + u16 (view r) (pos r + 28) + u16 (view r) (pos r + 30)
          + u16 (view r) (pos r + 32) \<le> length (view r)
     \<and> r' = r\<lparr>pos := pos r + 46 + u16 (view r) (pos r + 28) + u16 (view r) (pos r + 30)
          + u16 (view r) (pos r + 32)\<rparr>"
  unfolding readCentralDirectoryEntry_def
  by (auto simp add: reading_Inr_iffs add_ac split: if_splits)

lemma readLFH_Inr_iff:
  "(\<exists>h. readLocalFileHeader dec r = (Inr h, r')) \<longleftrightarrow>
     u32 (view r) (pos r) = 0x04034b50
     \<and> payload_start (view r) (pos r) \<le> length (view r)
     \<and> r' = r\<lparr>pos := payload_start (view r) (pos r)\<rparr>"
  unfolding readLocalFileHeader_def payload_start_def
  by (auto simp add: reading_Inr_iffs add_ac split: if_splits)


subsection \<open>What a reading may raise, and that it keeps the buffer\<close>

lemma reading_okI:
  assumes "\<And>r. view (snd (m r)) = view r" "\<And>r e. fst (m r) = Inl e \<Longrightarrow> P e"
  shows "reading_ok P m"
  using assms by (simp add: reading_ok_def)

lemma reading_ok_view: "reading_ok P m \<Longrightarrow> view (snd (m r)) = view r"
  by (simp add: reading_ok_def)

lemma reading_ok_error: "reading_ok P m \<Longrightarrow> fst (m r) = Inl e \<Longrightarrow> P e"
  by (simp add: reading_ok_def)

lemma reading_ok_bindR:
  assumes "reading_ok P m" "\<And>x. reading_ok P (f x)"
  shows "reading_ok P (bindR m f)"
proof (rule reading_okI)
  fix r
  obtain x r' where mr: "m r = (x, r')" by (cases "m r")
  have v: "view r' = view r" using reading_ok_view [OF assms(1), of r] mr by simp
  show "view (snd (bindR m f r)) = view r"
    using mr v reading_ok_view [OF assms(2)] by (cases x) (simp_all add: bindR_def)
  fix e
  assume "fst (bindR m f r) = Inl e"
  then show "P e"
    using mr reading_ok_error [OF assms(1), of r] reading_ok_error [OF assms(2)]
    by (cases x) (auto simp: bindR_def)
qed

lemma reading_ok_if:
  "reading_ok P a \<Longrightarrow> reading_ok P b \<Longrightarrow> reading_ok P (if c then a else b)"
  by simp

lemma reading_ok_throwR: "P e \<Longrightarrow> reading_ok P (throwR e)"
  by (simp add: reading_ok_def throwR_def)

lemma reading_ok_returnR: "reading_ok P (returnR x)"
  by (simp add: reading_ok_def returnR_def)

lemma reading_ok_seek: "(\<And>e. cursor_error e \<Longrightarrow> P e) \<Longrightarrow> reading_ok P (seek p)"
  by (simp add: reading_ok_def seek_eq Let_def)

lemma reading_ok_readU2: "(\<And>e. cursor_error e \<Longrightarrow> P e) \<Longrightarrow> reading_ok P readU2"
  by (simp add: reading_ok_def readU2_eq)

lemma reading_ok_readU4: "(\<And>e. cursor_error e \<Longrightarrow> P e) \<Longrightarrow> reading_ok P readU4"
  by (simp add: reading_ok_def readU4_eq)

lemma reading_ok_readBytes: "(\<And>e. cursor_error e \<Longrightarrow> P e) \<Longrightarrow> reading_ok P (readBytes n)"
  by (simp add: reading_ok_def readBytes_eq)

lemma reading_ok_readString:
  "(\<And>e. cursor_error e \<Longrightarrow> P e) \<Longrightarrow> reading_ok P (readString dec n)"
  by (simp add: reading_ok_def readString_eq)

lemmas reading_ok_intros = reading_ok_bindR reading_ok_if reading_ok_throwR reading_ok_returnR
  reading_ok_seek reading_ok_readU2 reading_ok_readU4 reading_ok_readBytes reading_ok_readString

text \<open>The errors of directory parsing, and those of opening an entry.\<close>

lemma reading_ok_readEOCD:
  "reading_ok (\<lambda>e. cursor_error e \<or> e = NotImplemented) readEndOfCentralDirectoryRecord"
  unfolding readEndOfCentralDirectoryRecord_def
  by (intro reading_ok_intros) simp_all

lemma reading_ok_readCDE:
  "reading_ok (\<lambda>e. cursor_error e \<or> e = SignatureMismatch) (readCentralDirectoryEntry dec)"
  unfolding readCentralDirectoryEntry_def
  by (intro reading_ok_intros) simp_all

lemma reading_ok_readLFH:
  "reading_ok (\<lambda>e. cursor_error e \<or> e = SignatureMismatch) (readLocalFileHeader dec)"
  unfolding readLocalFileHeader_def
  by (intro reading_ok_intros) simp_all

lemma reading_ok_weaken:
  "reading_ok P m \<Longrightarrow> (\<And>e. P e \<Longrightarrow> Q e) \<Longrightarrow> reading_ok Q m"
  by (simp add: reading_ok_def)


subsection \<open>The loop of unzip and the records it decodes\<close>

lemma unzip_loop_read_entries:
  "unzip_loop dec i n records r =
     (case read_entries dec (n - i) r of
        (Inl e, r') \<Rightarrow> (Inl e, r')
      | (Inr cs, r') \<Rightarrow> (Inr (fold put_entry cs records), r'))"
proof (induction dec i n records r rule: unzip_loop.induct)
  case (1 dec i n records r)
  obtain x r' where c: "readCentralDirectoryEntry dec r = (x, r')"
    by (cases "readCentralDirectoryEntry dec r")
  show ?case
  proof (cases "i < n")
    case True
    then have k: "n - i = Suc (n - (i + 1))" by simp
    show ?thesis
    proof (cases x)
      case (Inl e)
      then show ?thesis using True c
        by (subst unzip_loop.simps, subst k) simp
    next
      case (Inr d)
      have "unzip_loop dec i n records r =
              unzip_loop dec (i + 1) n (put_entry d records) r'"
        using True c Inr by (subst unzip_loop.simps) (simp add: put_entry_def)
      also have "\<dots> =
          (case read_entries dec (n - (i + 1)) r' of
             (Inl e, r'') \<Rightarrow> (Inl e, r'')
           | (Inr cs, r'') \<Rightarrow> (Inr (fold put_entry cs (put_entry d records)), r''))"
        by (rule "1.IH" [OF True c [symmetric] Inr, folded put_entry_def])
      also have "\<dots> =
          (case read_entries dec (n - i) r of
             (Inl e, r') \<Rightarrow> (Inl e, r')
           | (Inr cs, r') \<Rightarrow> (Inr (fold put_entry cs records), r'))"
        using c Inr by (subst k) (simp split: prod.splits sum.splits)
      finally show ?thesis .
    qed
  next
    case False
    then show ?thesis by (subst unzip_loop.simps) simp
  qed
qed

lemma read_entries_Inr:
  "read_entries dec k r = (Inr cs, r') \<Longrightarrow>
     length cs = k \<and> view r' = view r \<and> pos r + 46 * k \<le> pos r'
       \<and> (k = 0 \<or> pos r' \<le> length (view r))"
proof (induction k arbitrary: r cs)
  case 0
  then show ?case by simp
next
  case (Suc k)
  from Suc.prems obtain c r1 cs' where
    c: "readCentralDirectoryEntry dec r = (Inr c, r1)"
    and rest: "read_entries dec k r1 = (Inr cs', r')" and cs: "cs = c # cs'"
    by (auto split: prod.splits sum.splits)
  from readCDE_Inr [OF c] have
    p: "pos r + 46 \<le> pos r1" "pos r1 \<le> length (view r)" "view r1 = view r"
    by simp_all
  from Suc.IH [OF rest] have
    "length cs' = k" "view r' = view r1" "pos r1 + 46 * k \<le> pos r'"
    "k = 0 \<or> pos r' \<le> length (view r1)"
    by simp_all
  moreover have "k = 0 \<Longrightarrow> r' = r1" using rest by simp
  ultimately show ?case using p cs by auto
qed

lemma read_entries_view: "view (snd (read_entries dec k r)) = view r"
proof (induction k arbitrary: r)
  case 0
  then show ?case by simp
next
  case (Suc k)
  obtain x r1 where c: "readCentralDirectoryEntry dec r = (x, r1)"
    by (cases "readCentralDirectoryEntry dec r")
  have v: "view r1 = view r"
    using reading_ok_view [OF reading_ok_readCDE, of dec r] c by simp
  obtain y r2 where d: "read_entries dec k r1 = (y, r2)"
    by (cases "read_entries dec k r1")
  have w: "view r2 = view r1" using Suc.IH [of r1] d by simp
  show ?case using c d v w by (cases x; cases y) simp_all
qed

lemma read_entries_error:
  "fst (read_entries dec k r) = Inl e \<Longrightarrow> cursor_error e \<or> e = SignatureMismatch"
proof (induction k arbitrary: r)
  case 0
  then show ?case by simp
next
  case (Suc k)
  obtain x r1 where c: "readCentralDirectoryEntry dec r = (x, r1)"
    by (cases "readCentralDirectoryEntry dec r")
  obtain y r2 where d: "read_entries dec k r1 = (y, r2)"
    by (cases "read_entries dec k r1")
  show ?case
  proof (cases x)
    case (Inl e')
    then show ?thesis
      using Suc.prems c reading_ok_error [OF reading_ok_readCDE, of dec r e] by simp
  next
    case (Inr d')
    then show ?thesis
      using Suc.prems c d Suc.IH [of r1] by (cases y) simp_all
  qed
qed

lemma reading_ok_unzip_loop:
  "reading_ok (\<lambda>e. cursor_error e \<or> e = SignatureMismatch) (unzip_loop dec i n records)"
proof (rule reading_okI)
  fix r
  obtain y r2 where d: "read_entries dec (n - i) r = (y, r2)"
    by (cases "read_entries dec (n - i) r")
  show "view (snd (unzip_loop dec i n records r)) = view r"
    using read_entries_view [of dec "n - i" r] d
    by (cases y) (simp_all add: unzip_loop_read_entries)
  fix e
  assume "fst (unzip_loop dec i n records r) = Inl e"
  then show "cursor_error e \<or> e = SignatureMismatch"
    using read_entries_error [of dec "n - i" r e] d
    by (cases y) (simp_all add: unzip_loop_read_entries)
qed

lemma put_entry_own:
  "own (put_entry c records) nm =
     (if CentralDirectoryEntry.fileName c = nm \<and> nm \<noteq> ''__proto__''
      then Some \<lparr>name = nm, cde = c\<rparr>
      else own records nm)"
  by (auto simp: put_entry_def set_property_def)

lemma put_entry_proto:
  "proto (put_entry c records) =
     (if CentralDirectoryEntry.fileName c = ''__proto__''
      then Some \<lparr>name = ''__proto__'', cde = c\<rparr>
      else proto records)"
  by (auto simp: put_entry_def set_property_def)

text \<open>
  The own property of a name other than \<open>__proto__\<close> is the last record of
  that name; \<open>__proto__\<close> never becomes an own property; the prototype is the
  last record named \<open>__proto__\<close>.
\<close>

lemma fold_put_entry_own:
  "nm \<noteq> ''__proto__'' \<Longrightarrow>
   own (fold put_entry cs records) nm =
     (case filter (\<lambda>c. CentralDirectoryEntry.fileName c = nm) cs of
        [] \<Rightarrow> own records nm
      | c # cs' \<Rightarrow> Some \<lparr>name = nm, cde = last (c # cs')\<rparr>)"
proof (induction cs arbitrary: records)
  case Nil
  then show ?case by simp
next
  case (Cons c cs)
  have "own (fold put_entry (c # cs) records) nm
      = own (fold put_entry cs (put_entry c records)) nm"
    by simp
  also have "\<dots> =
     (case filter (\<lambda>c. CentralDirectoryEntry.fileName c = nm) cs of
        [] \<Rightarrow> own (put_entry c records) nm
      | c # cs' \<Rightarrow> Some \<lparr>name = nm, cde = last (c # cs')\<rparr>)"
    by (rule Cons.IH [OF Cons.prems])
  also have "\<dots> =
     (case filter (\<lambda>c. CentralDirectoryEntry.fileName c = nm) (c # cs) of
        [] \<Rightarrow> own records nm
      | c # cs' \<Rightarrow> Some \<lparr>name = nm, cde = last (c # cs')\<rparr>)"
    using Cons.prems by (simp add: put_entry_own split: list.splits)
  finally show ?case .
qed

lemma fold_put_entry_own_proto:
  "own (fold put_entry cs records) ''__proto__'' = own records ''__proto__''"
  by (induction cs arbitrary: records) (simp_all add: put_entry_own)

lemma fold_put_entry_proto:
  "proto (fold put_entry cs records) =
     (case filter (\<lambda>c. CentralDirectoryEntry.fileName c = ''__proto__'') cs of
        [] \<Rightarrow> proto records
      | c # cs' \<Rightarrow> Some \<lparr>name = ''__proto__'', cde = last (c # cs')\<rparr>)"
proof (induction cs arbitrary: records)
  case Nil
  then show ?case by simp
next
  case (Cons c cs)
  have "proto (fold put_entry (c # cs) records)
      = proto (fold put_entry cs (put_entry c records))"
    by simp
  also have "\<dots> =
     (case filter (\<lambda>c. CentralDirectoryEntry.fileName c = ''__proto__'') cs of
        [] \<Rightarrow> proto (put_entry c records)
      | c # cs' \<Rightarrow> Some \<lparr>name = ''__proto__'', cde = last (c # cs')\<rparr>)"
    by (rule Cons.IH)
  also have "\<dots> =
     (case filter (\<lambda>c. CentralDirectoryEntry.fileName c = ''__proto__'') (c # cs) of
        [] \<Rightarrow> proto records
      | c # cs' \<Rightarrow> Some \<lparr>name = ''__proto__'', cde = last (c # cs')\<rparr>)"
    by (simp add: put_entry_proto split: list.splits)
  finally show ?case .
qed

subsection \<open>unzip as a whole\<close>

lemma unzip_short: "length buf < 22 \<Longrightarrow>
  unzip dec buf = (Inl (SeekNegative (int (length buf) - 22)), \<lparr>view = buf, pos = 0\<rparr>)"
  by (simp add: unzip_def bindR_def seek_eq Let_def)

lemma unzip_long: "22 \<le> length buf \<Longrightarrow>
  unzip dec buf =
    bindR readEndOfCentralDirectoryRecord (\<lambda>eocd.
      bindR (seek (int
        (offsetOfStartOfCentralDirectoryWithRespectToTheStartingDiskNumber eocd))) (\<lambda>_.
      unzip_loop dec 0 (totalNumberOfEntriesInTheCentralDirectoryOnThisDisk eocd)
        empty_object)) \<lparr>view = buf, pos = length buf - 22\<rparr>"
  by (simp add: unzip_def bindR_def seek_eq Let_def nat_diff_distrib' of_nat_diff)

lemma unzip_Inr_iff:
  "fst (unzip dec buf) = Inr cat \<longleftrightarrow>
     22 \<le> length buf \<and> u32 buf (length buf - 22) = 0x06054b50
     \<and> u16 buf (length buf - 22 + 20) = 0
     \<and> trailer_offset buf \<le> length buf
     \<and> (\<exists>cdes. directory_records dec buf = Inr cdes
           \<and> cat = fold put_entry cdes empty_object)"
proof (cases "22 \<le> length buf")
  case False
  then show ?thesis by (simp add: unzip_short)
next
  case True
  let ?r = "\<lparr>view = buf, pos = length buf - 22\<rparr>"
  have "fst (unzip dec buf) = Inr cat \<longleftrightarrow> (\<exists>r'. unzip dec buf = (Inr cat, r'))"
    by (cases "unzip dec buf") auto
  also have "\<dots> \<longleftrightarrow>
     (\<exists>r' eocd r1. readEndOfCentralDirectoryRecord ?r = (Inr eocd, r1) \<and>
        offsetOfStartOfCentralDirectoryWithRespectToTheStartingDiskNumber eocd \<le> length (view r1) \<and>
        unzip_loop dec 0 (totalNumberOfEntriesInTheCentralDirectoryOnThisDisk eocd) empty_object
          (r1\<lparr>pos := offsetOfStartOfCentralDirectoryWithRespectToTheStartingDiskNumber eocd\<rparr>)
          = (Inr cat, r'))"
    by (simp add: unzip_long [OF True] bindR_Inr_iff seek_nat_Inr_iff)
  also have "\<dots> \<longleftrightarrow>
     (\<exists>r' r1. (\<exists>eocd. readEndOfCentralDirectoryRecord ?r = (Inr eocd, r1) \<and>
        totalNumberOfEntriesInTheCentralDirectoryOnThisDisk eocd = trailer_count buf \<and>
        offsetOfStartOfCentralDirectoryWithRespectToTheStartingDiskNumber eocd = trailer_offset buf) \<and>
        trailer_offset buf \<le> length buf \<and>
        unzip_loop dec 0 (trailer_count buf) empty_object
          \<lparr>view = buf, pos = trailer_offset buf\<rparr> = (Inr cat, r'))"
    (is "?A \<longleftrightarrow> ?B")
  proof
    assume ?A
    then obtain r' eocd r1 where
      e: "readEndOfCentralDirectoryRecord ?r = (Inr eocd, r1)"
      and o: "offsetOfStartOfCentralDirectoryWithRespectToTheStartingDiskNumber eocd \<le> length (view r1)"
      and l: "unzip_loop dec 0 (totalNumberOfEntriesInTheCentralDirectoryOnThisDisk eocd) empty_object
          (r1\<lparr>pos := offsetOfStartOfCentralDirectoryWithRespectToTheStartingDiskNumber eocd\<rparr>)
          = (Inr cat, r')"
      by blast
    from e have "\<exists>eocd'. readEndOfCentralDirectoryRecord ?r = (Inr eocd', r1)
      \<and> totalNumberOfEntriesInTheCentralDirectoryOnThisDisk eocd' =
          totalNumberOfEntriesInTheCentralDirectoryOnThisDisk eocd
      \<and> offsetOfStartOfCentralDirectoryWithRespectToTheStartingDiskNumber eocd' =
          offsetOfStartOfCentralDirectoryWithRespectToTheStartingDiskNumber eocd"
      by blast
    then have f: "totalNumberOfEntriesInTheCentralDirectoryOnThisDisk eocd = trailer_count buf"
      "offsetOfStartOfCentralDirectoryWithRespectToTheStartingDiskNumber eocd = trailer_offset buf"
      "r1 = ?r\<lparr>pos := length buf - 22 + 22\<rparr>"
      unfolding readEOCD_Inr_iff by (simp_all add: trailer_count_def trailer_offset_def)
    show ?B using e o l f by auto
  next
    assume ?B
    then obtain r' r1 eocd where
      e: "readEndOfCentralDirectoryRecord ?r = (Inr eocd, r1)"
      and f: "totalNumberOfEntriesInTheCentralDirectoryOnThisDisk eocd = trailer_count buf"
        "offsetOfStartOfCentralDirectoryWithRespectToTheStartingDiskNumber eocd = trailer_offset buf"
      and o: "trailer_offset buf \<le> length buf"
      and l: "unzip_loop dec 0 (trailer_count buf) empty_object
          \<lparr>view = buf, pos = trailer_offset buf\<rparr> = (Inr cat, r')"
      by blast
    from e f have "\<exists>eocd'. readEndOfCentralDirectoryRecord ?r = (Inr eocd', r1)
      \<and> totalNumberOfEntriesInTheCentralDirectoryOnThisDisk eocd' = trailer_count buf
      \<and> offsetOfStartOfCentralDirectoryWithRespectToTheStartingDiskNumber eocd' = trailer_offset buf"
      by blast
    then have "r1 = ?r\<lparr>pos := length buf - 22 + 22\<rparr>"
      unfolding readEOCD_Inr_iff by simp
    then show ?A using e f o l by auto
  qed
  also have "\<dots> \<longleftrightarrow>
     u32 buf (length buf - 22) = 0x06054b50 \<and> u16 buf (length buf - 22 + 20) = 0
     \<and> trailer_offset buf \<le> length buf
     \<and> (\<exists>r'. unzip_loop dec 0 (trailer_count buf) empty_object
          \<lparr>view = buf, pos = trailer_offset buf\<rparr> = (Inr cat, r'))"
    using True unfolding readEOCD_Inr_iff
    by (auto simp: trailer_count_def trailer_offset_def)
  also have "(\<exists>r'. unzip_loop dec 0 (trailer_count buf) empty_object
          \<lparr>view = buf, pos = trailer_offset buf\<rparr> = (Inr cat, r')) \<longleftrightarrow>
      (\<exists>cdes. directory_records dec buf = Inr cdes \<and> cat = fold put_entry cdes empty_object)"
    by (cases "read_entries dec (trailer_count buf) \<lparr>view = buf, pos = trailer_offset buf\<rparr>")
       (auto simp: unzip_loop_read_entries directory_records_def split: sum.splits)
  finally show ?thesis using True by simp
qed


subsection \<open>Opening an entry\<close>

lemma reading_ok_open:
  "reading_ok (\<lambda>err. cursor_error err \<or> err = SignatureMismatch
       \<or> err = NotSupported (CentralDirectoryEntry.compressionMethod (cde e)))
     (ZipEntry_open dec e)"
  unfolding ZipEntry_open_def Let_def
  by (intro reading_ok_intros reading_ok_weaken [OF reading_ok_readLFH]) auto

lemma bindR_assoc: "bindR (bindR m f) g = bindR m (\<lambda>x. bindR (f x) g)"
  by (rule ext) (simp add: bindR_def split: prod.splits sum.splits)

lemma open_by_payload:
  "ZipEntry_open dec e =
     bindR (read_payload dec (relativeOffsetOfLocalHeader (cde e))
              (CentralDirectoryEntry.compressedSize (cde e)))
       (\<lambda>bytes.
          if CentralDirectoryEntry.compressionMethod (cde e) = 0
            then returnR (BlobStream bytes)
          else if CentralDirectoryEntry.compressionMethod (cde e) = 8
            then returnR (PipeThroughDeflateRaw (BlobStream bytes))
          else throwR (NotSupported (CentralDirectoryEntry.compressionMethod (cde e))))"
  by (simp add: ZipEntry_open_def read_payload_def bindR_assoc Let_def)

text \<open>The payload is read when the local header is one and the payload fits.\<close>

lemma read_payload_fits:
  assumes "u32 (view r) off = 0x04034b50"
    and "payload_start (view r) off + n \<le> length (view r)"
  shows "read_payload dec off n r =
    (Inr (bytes_at (view r) (payload_start (view r) off) n),
     r\<lparr>pos := payload_start (view r) off + n\<rparr>)"
proof -
  let ?start = "payload_start (view r) off"
  have ge: "off \<le> ?start" by (simp add: payload_start_def)
  have "\<exists>h. readLocalFileHeader dec (r\<lparr>pos := off\<rparr>) = (Inr h, r\<lparr>pos := ?start\<rparr>)"
    unfolding readLFH_Inr_iff using assms by simp
  then obtain h where
    h: "readLocalFileHeader dec (r\<lparr>pos := off\<rparr>) = (Inr h, r\<lparr>pos := ?start\<rparr>)" ..
  show ?thesis
    using ge assms(2) h by (simp add: read_payload_def bindR_def seek_nat readBytes_eq)
qed

lemma read_payload_fails:
  assumes "\<not> (u32 (view r) off = 0x04034b50
             \<and> payload_start (view r) off + n \<le> length (view r))"
  shows "\<exists>err. fst (read_payload dec off n r) = Inl err
           \<and> (cursor_error err \<or> err = SignatureMismatch)"
proof (cases "off \<le> length (view r)")
  case False
  then show ?thesis by (simp add: read_payload_def bindR_def seek_nat)
next
  case True
  let ?r0 = "r\<lparr>pos := off\<rparr>"
  obtain x r1 where h: "readLocalFileHeader dec ?r0 = (x, r1)"
    by (cases "readLocalFileHeader dec ?r0")
  show ?thesis
  proof (cases x)
    case (Inl err)
    then have "cursor_error err \<or> err = SignatureMismatch"
      using reading_ok_error [OF reading_ok_readLFH, of dec ?r0 err] h by simp
    then show ?thesis using True h Inl
      by (simp add: read_payload_def bindR_def seek_nat)
  next
    case (Inr hd)
    then have "\<exists>hd. readLocalFileHeader dec ?r0 = (Inr hd, r1)" using h by blast
    then have f: "u32 (view r) off = 0x04034b50"
      "r1 = r\<lparr>pos := payload_start (view r) off\<rparr>"
      unfolding readLFH_Inr_iff by simp_all
    then have "\<not> payload_start (view r) off + n \<le> length (view r)"
      using assms by simp
    then show ?thesis using True h Inr f
      by (simp add: read_payload_def bindR_def seek_nat readBytes_eq)
  qed
qed

lemma read_payload_pos:
  "fst (read_payload dec off n (r\<lparr>pos := p\<rparr>)) = fst (read_payload dec off n r)
   \<and> (\<forall>x. fst (read_payload dec off n r) = Inr x \<longrightarrow>
         snd (read_payload dec off n (r\<lparr>pos := p\<rparr>)) = snd (read_payload dec off n r))"
  by (simp add: read_payload_def bindR_def [of "seek (int off)"] seek_nat)

lemma open_pos:
  "fst (ZipEntry_open dec e (r\<lparr>pos := p\<rparr>)) = fst (ZipEntry_open dec e r)"
proof -
  let ?off = "relativeOffsetOfLocalHeader (cde e)"
  let ?n = "CentralDirectoryEntry.compressedSize (cde e)"
  obtain x r1 where a: "read_payload dec ?off ?n r = (x, r1)"
    by (cases "read_payload dec ?off ?n r")
  obtain y r2 where b: "read_payload dec ?off ?n (r\<lparr>pos := p\<rparr>) = (y, r2)"
    by (cases "read_payload dec ?off ?n (r\<lparr>pos := p\<rparr>)")
  note pp = read_payload_pos [where r = r and p = p and dec = dec and off = ?off and n = ?n]
  have xy: "y = x" using pp a b by simp
  show ?thesis
  proof (cases x)
    case (Inl err)
    then show ?thesis using a b xy by (simp add: open_by_payload bindR_def)
  next
    case (Inr bytes)
    then have "r2 = r1" using pp a b by simp
    then show ?thesis using a b xy by (simp add: open_by_payload bindR_def)
  qed
qed

lemma open_same_view:
  assumes "view r' = view r"
  shows "fst (ZipEntry_open dec e r') = fst (ZipEntry_open dec e r)"
proof -
  have "r' = r\<lparr>pos := pos r'\<rparr>" using assms by (cases r; cases r') simp
  then show ?thesis using open_pos [where r = r and p = "pos r'"] by simp
qed

lemma open_view: "view (snd (ZipEntry_open dec e r)) = view r"
  by (rule reading_ok_view [OF reading_ok_open])

lemma open_in_turn_eq:
  "fst (open_in_turn dec es r) = map (\<lambda>e. fst (ZipEntry_open dec e r)) es
     \<and> view (snd (open_in_turn dec es r)) = view r"
proof (induction es arbitrary: r)
  case Nil
  then show ?case by simp
next
  case (Cons e es)
  obtain x r1 where o: "ZipEntry_open dec e r = (x, r1)" by (cases "ZipEntry_open dec e r")
  have v: "view r1 = view r" using open_view [of dec e r] o by simp
  obtain xs r2 where t: "open_in_turn dec es r1 = (xs, r2)" by (cases "open_in_turn dec es r1")
  have "xs = map (\<lambda>e. fst (ZipEntry_open dec e r1)) es" "view r2 = view r1"
    using Cons.IH [of r1] t by simp_all
  moreover have "map (\<lambda>e. fst (ZipEntry_open dec e r1)) es = map (\<lambda>e. fst (ZipEntry_open dec e r)) es"
    using open_same_view [OF v] by simp
  ultimately show ?case using o t v by simp
qed



subsection \<open>Errors of unzip and of opening supported entries\<close>

lemma reading_ok_read_payload:
  "reading_ok (\<lambda>err. cursor_error err \<or> err = SignatureMismatch) (read_payload dec off n)"
  unfolding read_payload_def
  by (intro reading_ok_intros reading_ok_weaken [OF reading_ok_readLFH]) auto

lemma open_supported_error:
  assumes "CentralDirectoryEntry.compressionMethod (cde e) = 0
         \<or> CentralDirectoryEntry.compressionMethod (cde e) = 8"
    and "fst (ZipEntry_open dec e r) = Inl err"
  shows "cursor_error err \<or> err = SignatureMismatch"
proof -
  have "reading_ok (\<lambda>err. cursor_error err \<or> err = SignatureMismatch) (ZipEntry_open dec e)"
    unfolding open_by_payload using assms(1)
    by (intro reading_ok_bindR reading_ok_read_payload)
       (auto intro: reading_ok_returnR)
  then show ?thesis using assms(2) by (rule reading_ok_error)
qed

lemma unzip_error:
  assumes "fst (unzip dec buf) = Inl err"
  shows "cursor_error err \<or> err = NotImplemented \<or> err = SignatureMismatch"
proof -
  have "reading_ok (\<lambda>err. cursor_error err \<or> err = NotImplemented \<or> err = SignatureMismatch)
          (bindR (seek (- 22)) (\<lambda>_.
           bindR readEndOfCentralDirectoryRecord (\<lambda>eocd.
           bindR (seek (int
             (offsetOfStartOfCentralDirectoryWithRespectToTheStartingDiskNumber eocd))) (\<lambda>_.
           unzip_loop dec 0 (totalNumberOfEntriesInTheCentralDirectoryOnThisDisk eocd)
             empty_object))))"
    by (intro reading_ok_bindR reading_ok_seek
          reading_ok_weaken [OF reading_ok_readEOCD] reading_ok_weaken [OF reading_ok_unzip_loop])
       auto
  then show ?thesis
    using assms unfolding unzip_def Let_def by (rule reading_ok_error)
qed

lemma unzip_Inr_fits:
  assumes "fst (unzip dec buf) = Inr cat"
  shows "trailer_offset buf + 46 * trailer_count buf \<le> length buf"
proof -
  from assms obtain cdes where
    o: "trailer_offset buf \<le> length buf" and
    d: "directory_records dec buf = Inr cdes"
    unfolding unzip_Inr_iff by blast
  let ?r = "\<lparr>view = buf, pos = trailer_offset buf\<rparr>"
  obtain r' where "read_entries dec (trailer_count buf) ?r = (Inr cdes, r')"
    using d unfolding directory_records_def
    by (cases "read_entries dec (trailer_count buf) ?r") auto
  from read_entries_Inr [OF this] o show ?thesis by auto
qed



section \<open>The concrete archives, evaluated\<close>

lemmas run_reading = seek_eq readU2_eq readU4_eq readBytes_eq readString_eq bindR_def
  returnR_def throwR_def u16_def u32_def bytes_at_def Let_def

lemma latin1_ab: "char_of (97::nat) = CHR ''a''" "char_of (98::nat) = CHR ''b''"
  by code_simp+

lemma demo_zip_length: "length demo_zip = 262"
  by (simp add: demo_zip_def)

lemma demo_trailer: "trailer_count demo_zip = 3 \<and> trailer_offset demo_zip = 99"
  by (simp add: trailer_count_def trailer_offset_def u16_def u32_def bytes_at_def demo_zip_def)

lemma demo_trailer_ok: "u32 demo_zip 240 = 0x06054b50 \<and> u16 demo_zip 260 = 0"
  by (simp add: u16_def u32_def bytes_at_def demo_zip_def)

lemma demo_directory: "directory_records latin1 demo_zip = Inr demo_records"
proof -
  have "directory_records latin1 demo_zip =
          fst (read_entries latin1 (Suc (Suc (Suc 0))) \<lparr>view = demo_zip, pos = 99\<rparr>)"
    by (simp add: directory_records_def demo_trailer numeral_3_eq_3)
  also have "\<dots> = Inr demo_records"
    by (simp add: readCentralDirectoryEntry_def run_reading demo_zip_def latin1_def
          demo_records_def demo_record_def latin1_ab)
  finally show ?thesis .
qed

lemma demo_unzip: "\<exists>cat. fst (unzip latin1 demo_zip) = Inr cat"
  by (simp add: unzip_Inr_iff demo_directory demo_zip_length demo_trailer demo_trailer_ok)

lemma demo_headers:
  "u32 demo_zip 33 = 0x04034b50 \<and> payload_start demo_zip 33 = 64
   \<and> u32 demo_zip 65 = 0x04034b50 \<and> payload_start demo_zip 65 = 96"
  by (simp add: payload_start_def u16_def u32_def bytes_at_def demo_zip_def)

lemma demo_payload: "bytes_at demo_zip 96 3 = [121, 111, 33]"
  by (simp add: bytes_at_def demo_zip_def)

lemma trunc_trailer:
  "length trunc_zip = 102 \<and> trailer_count trunc_zip = 3 \<and> trailer_offset trunc_zip = 33"
  by (simp add: trailer_count_def trailer_offset_def u16_def u32_def bytes_at_def trunc_zip_def)

lemma bindR_throwR: "bindR (throwR e) f = throwR e"
  by (rule ext) (simp add: bindR_def throwR_def)







lemma bigdir_trailer:
  "length bigdir_zip = 102 \<and> trailer_count bigdir_zip = 1 \<and> trailer_offset bigdir_zip = 33
   \<and> u32 bigdir_zip 80 = 0x06054b50 \<and> u16 bigdir_zip 100 = 0"
  by (simp add: trailer_count_def trailer_offset_def u16_def u32_def bytes_at_def bigdir_zip_def)

lemma bigdir_directory: "directory_records latin1 bigdir_zip = Inr [demo_record 0 2 0 ''a'']"
proof -
  have "directory_records latin1 bigdir_zip =
          fst (read_entries latin1 (Suc 0) \<lparr>view = bigdir_zip, pos = 33\<rparr>)"
    by (simp add: directory_records_def bigdir_trailer)
  also have "\<dots> = Inr [demo_record 0 2 0 ''a'']"
    by (simp add: readCentralDirectoryEntry_def run_reading bigdir_zip_def latin1_def
          demo_record_def latin1_ab)
  finally show ?thesis .
qed

lemma bigdir_unzip: "fst (unzip latin1 bigdir_zip) = Inr bigdir_catalog"
proof -
  have "fold put_entry [demo_record 0 2 0 ''a''] empty_object = bigdir_catalog"
    by (simp add: demo_record_def put_entry_def set_property_def
          empty_object_def bigdir_catalog_def entry_of_def)
  then show ?thesis
    by (simp add: unzip_Inr_iff bigdir_directory bigdir_trailer)
qed

lemma bigdir_size_field:
  "map_sum id sizeOfTheCentralDirectory
     (fst (readEndOfCentralDirectoryRecord \<lparr>view = bigdir_zip, pos = 80\<rparr>)) = Inr 1000"
  by (simp add: readEndOfCentralDirectoryRecord_def run_reading bigdir_zip_def)

section \<open>The claims about the archive reader\<close>

text \<open>
  C1. Opening an archive seeks to \<open>length - 22\<close> (and fails when the buffer is
  shorter); it fails when the four bytes there are not the end-of-directory
  magic; when it succeeds, the trailer was decoded at that position, the
  cursor was moved to the trailer's directory offset, and exactly as many
  central-directory entries were decoded from there as the trailer's this-disk
  count says, each only after its own signature matched: the catalog is built
  from those records in order.
\<close>

theorem unzip_decodes_trailer_count:
  "(length buf < 22 \<longrightarrow>
      fst (unzip dec buf) = Inl (SeekNegative (int (length buf) - 22)))
   \<and> (22 \<le> length buf \<longrightarrow>
      seek (- 22) \<lparr>view = buf, pos = 0\<rparr> = (Inr (), \<lparr>view = buf, pos = length buf - 22\<rparr>))
   \<and> (22 \<le> length buf \<and> u32 buf (length buf - 22) \<noteq> 0x06054b50 \<longrightarrow>
      fst (unzip dec buf) = Inl NotImplemented)
   \<and> (fst (unzip dec buf) = Inr cat \<longrightarrow>
        22 \<le> length buf \<and> u32 buf (length buf - 22) = 0x06054b50
        \<and> (\<exists>eocd r1.
              readEndOfCentralDirectoryRecord \<lparr>view = buf, pos = length buf - 22\<rparr>
                = (Inr eocd, r1)
              \<and> totalNumberOfEntriesInTheCentralDirectoryOnThisDisk eocd = trailer_count buf
              \<and> offsetOfStartOfCentralDirectoryWithRespectToTheStartingDiskNumber eocd
                  = trailer_offset buf)
        \<and> (\<exists>cdes r2.
              read_entries dec (trailer_count buf) \<lparr>view = buf, pos = trailer_offset buf\<rparr>
                = (Inr cdes, r2)
              \<and> length cdes = trailer_count buf
              \<and> cat = fold put_entry cdes empty_object))
   \<and> (readCentralDirectoryEntry dec r = (Inr c, r') \<longrightarrow>
        u32 (view r) (pos r) = 0x02014b50)"
proof (intro conjI impI)
  assume "length buf < 22"
  then show "fst (unzip dec buf) = Inl (SeekNegative (int (length buf) - 22))"
    by (simp add: unzip_short)
next
  assume "22 \<le> length buf"
  then show "seek (- 22) \<lparr>view = buf, pos = 0\<rparr>
      = (Inr (), \<lparr>view = buf, pos = length buf - 22\<rparr>)"
    by (simp add: seek_eq Let_def nat_diff_distrib')
next
  assume a: "22 \<le> length buf \<and> u32 buf (length buf - 22) \<noteq> 0x06054b50"
  then have "readU4 \<lparr>view = buf, pos = length buf - 22\<rparr> =
      (Inr (u32 buf (length buf - 22)), \<lparr>view = buf, pos = length buf - 22 + 4\<rparr>)"
    by (simp add: readU4_eq)
  then show "fst (unzip dec buf) = Inl NotImplemented"
    using a
    by (simp add: unzip_long readEndOfCentralDirectoryRecord_def bindR_assoc
          bindR_def [of readU4] bindR_throwR throwR_def)
next
  assume s: "fst (unzip dec buf) = Inr cat"
  then obtain cdes where
    l: "22 \<le> length buf" and m: "u32 buf (length buf - 22) = 0x06054b50"
    and z: "u16 buf (length buf - 22 + 20) = 0"
    and d: "directory_records dec buf = Inr cdes"
    and c: "cat = fold put_entry cdes empty_object"
    unfolding unzip_Inr_iff by blast
  show "22 \<le> length buf" by (rule l)
  show "u32 buf (length buf - 22) = 0x06054b50" by (rule m)
  let ?r = "\<lparr>view = buf, pos = length buf - 22\<rparr>"
  have "\<exists>eocd. readEndOfCentralDirectoryRecord ?r = (Inr eocd, ?r\<lparr>pos := pos ?r + 22\<rparr>)
      \<and> totalNumberOfEntriesInTheCentralDirectoryOnThisDisk eocd = trailer_count buf
      \<and> offsetOfStartOfCentralDirectoryWithRespectToTheStartingDiskNumber eocd
          = trailer_offset buf"
    unfolding readEOCD_Inr_iff using l m z
    by (simp add: trailer_count_def trailer_offset_def)
  then show "\<exists>eocd r1. readEndOfCentralDirectoryRecord ?r = (Inr eocd, r1)
      \<and> totalNumberOfEntriesInTheCentralDirectoryOnThisDisk eocd = trailer_count buf
      \<and> offsetOfStartOfCentralDirectoryWithRespectToTheStartingDiskNumber eocd
          = trailer_offset buf"
    by blast
  let ?d = "\<lparr>view = buf, pos = trailer_offset buf\<rparr>"
  obtain r2 where e: "read_entries dec (trailer_count buf) ?d = (Inr cdes, r2)"
    using d unfolding directory_records_def
    by (cases "read_entries dec (trailer_count buf) ?d") auto
  from read_entries_Inr [OF e] have "length cdes = trailer_count buf" by simp
  then show "\<exists>cdes r2. read_entries dec (trailer_count buf) ?d = (Inr cdes, r2)
      \<and> length cdes = trailer_count buf \<and> cat = fold put_entry cdes empty_object"
    using e c by blast
next
  assume "readCentralDirectoryEntry dec r = (Inr c, r')"
  from readCDE_Inr [OF this] show "u32 (view r) (pos r) = 0x02014b50" by simp
qed

theorem unzip_decodes_trailer_count_witness:
  "trailer_count demo_zip = 3
   \<and> (\<exists>cat cdes r2. fst (unzip latin1 demo_zip) = Inr cat
        \<and> read_entries latin1 3 \<lparr>view = demo_zip, pos = 99\<rparr> = (Inr cdes, r2)
        \<and> length cdes = 3 \<and> cat = fold put_entry cdes empty_object)"
proof -
  obtain cat where c: "fst (unzip latin1 demo_zip) = Inr cat"
    using demo_unzip by blast
  from unzip_decodes_trailer_count [of demo_zip latin1 cat] c
  show ?thesis by (simp add: demo_trailer)
qed



text \<open>
  For every name other than \<open>__proto__\<close>, the own property of the catalog is
  the last directory record of that name (none when there is no such record):
  a record that no later record of the same name follows is the one in its
  name's slot.
\<close>

lemma catalog_own_is_last_record:
  assumes "fst (unzip dec buf) = Inr cat"
  shows "\<exists>cdes. directory_records dec buf = Inr cdes
     \<and> (\<forall>nm. nm \<noteq> ''__proto__'' \<longrightarrow> own cat nm =
           (case filter (\<lambda>c. CentralDirectoryEntry.fileName c = nm) cdes of
              [] \<Rightarrow> None
            | c # cs \<Rightarrow> Some \<lparr>name = nm, cde = last (c # cs)\<rparr>))
     \<and> (\<forall>xs c ys. cdes = xs @ c # ys
           \<and> CentralDirectoryEntry.fileName c \<noteq> ''__proto__''
           \<and> (\<forall>y \<in> set ys. CentralDirectoryEntry.fileName y \<noteq> CentralDirectoryEntry.fileName c)
           \<longrightarrow> own cat (CentralDirectoryEntry.fileName c)
                 = Some \<lparr>name = CentralDirectoryEntry.fileName c, cde = c\<rparr>)
     \<and> own cat ''__proto__'' = None
     \<and> proto cat =
           (case filter (\<lambda>c. CentralDirectoryEntry.fileName c = ''__proto__'') cdes of
              [] \<Rightarrow> None
            | c # cs \<Rightarrow> Some \<lparr>name = ''__proto__'', cde = last (c # cs)\<rparr>)"
proof -
  from assms obtain cdes where
    d: "directory_records dec buf = Inr cdes"
    and c: "cat = fold put_entry cdes empty_object"
    unfolding unzip_Inr_iff by blast
  have slot: "own cat nm =
           (case filter (\<lambda>c. CentralDirectoryEntry.fileName c = nm) cdes of
              [] \<Rightarrow> None
            | c # cs \<Rightarrow> Some \<lparr>name = nm, cde = last (c # cs)\<rparr>)"
    if "nm \<noteq> ''__proto__''" for nm
    unfolding c by (simp add: fold_put_entry_own [OF that] empty_object_def split: list.splits)
  have last: "own cat (CentralDirectoryEntry.fileName c)
          = Some \<lparr>name = CentralDirectoryEntry.fileName c, cde = c\<rparr>"
    if "cdes = xs @ c # ys" "CentralDirectoryEntry.fileName c \<noteq> ''__proto__''"
      "\<forall>y \<in> set ys. CentralDirectoryEntry.fileName y \<noteq> CentralDirectoryEntry.fileName c"
    for xs c ys
  proof -
    have "filter (\<lambda>d. CentralDirectoryEntry.fileName d = CentralDirectoryEntry.fileName c) ys = []"
      using that(3) by (simp add: filter_empty_conv)
    then have "filter (\<lambda>d. CentralDirectoryEntry.fileName d = CentralDirectoryEntry.fileName c) cdes
        = filter (\<lambda>d. CentralDirectoryEntry.fileName d = CentralDirectoryEntry.fileName c) xs @ [c]"
      using that(1) by simp
    moreover obtain z zs where
      "filter (\<lambda>d. CentralDirectoryEntry.fileName d = CentralDirectoryEntry.fileName c) xs @ [c]
         = z # zs"
      by (cases "filter (\<lambda>d. CentralDirectoryEntry.fileName d = CentralDirectoryEntry.fileName c) xs @ [c]")
         simp_all
    moreover from this have "last (z # zs) = c"
      by (metis last_snoc)
    ultimately show ?thesis
      unfolding slot [OF that(2)] by simp
  qed
  have none: "own cat ''__proto__'' = None"
    unfolding c by (simp add: fold_put_entry_own_proto empty_object_def)
  have pr: "proto cat =
           (case filter (\<lambda>c. CentralDirectoryEntry.fileName c = ''__proto__'') cdes of
              [] \<Rightarrow> None
            | c # cs \<Rightarrow> Some \<lparr>name = ''__proto__'', cde = last (c # cs)\<rparr>)"
    unfolding c by (simp add: fold_put_entry_proto empty_object_def split: list.splits)
  show ?thesis using d slot last none pr by blast
qed


text \<open>
  C2. For an entry whose directory record has method 0, \<open>open()\<close> succeeds
  exactly when the bytes at the record's local-header offset start with the
  local-header signature and header and payload fit in the buffer; it then
  yields the \<open>compressedSize\<close> bytes that start where the local header ends,
  as they are in the archive. Otherwise it fails with an error of the cursor
  or a signature mismatch.
\<close>

theorem open_stored_yields_payload:
  assumes "CentralDirectoryEntry.compressionMethod (cde e) = 0"
  shows
  "(u32 (view r) (relativeOffsetOfLocalHeader (cde e)) = 0x04034b50
      \<and> payload_start (view r) (relativeOffsetOfLocalHeader (cde e))
           + CentralDirectoryEntry.compressedSize (cde e) \<le> length (view r)
    \<longrightarrow>
      (\<exists>h. readLocalFileHeader dec (r\<lparr>pos := relativeOffsetOfLocalHeader (cde e)\<rparr>)
            = (Inr h, r\<lparr>pos := payload_start (view r) (relativeOffsetOfLocalHeader (cde e))\<rparr>))
      \<and> fst (ZipEntry_open dec e r)
          = Inr (BlobStream (take (CentralDirectoryEntry.compressedSize (cde e))
                   (drop (payload_start (view r) (relativeOffsetOfLocalHeader (cde e)))
                      (view r))))
      \<and> length (take (CentralDirectoryEntry.compressedSize (cde e))
                   (drop (payload_start (view r) (relativeOffsetOfLocalHeader (cde e)))
                      (view r)))
          = CentralDirectoryEntry.compressedSize (cde e))
   \<and> (\<not> (u32 (view r) (relativeOffsetOfLocalHeader (cde e)) = 0x04034b50
          \<and> payload_start (view r) (relativeOffsetOfLocalHeader (cde e))
               + CentralDirectoryEntry.compressedSize (cde e) \<le> length (view r))
    \<longrightarrow>
      (\<exists>err. fst (ZipEntry_open dec e r) = Inl err
         \<and> (cursor_error err \<or> err = SignatureMismatch)))"
proof (intro conjI impI)
  let ?off = "relativeOffsetOfLocalHeader (cde e)"
  let ?n = "CentralDirectoryEntry.compressedSize (cde e)"
  let ?start = "payload_start (view r) ?off"
  {
    assume ok: "u32 (view r) ?off = 0x04034b50 \<and> ?start + ?n \<le> length (view r)"
    show "\<exists>h. readLocalFileHeader dec (r\<lparr>pos := ?off\<rparr>) = (Inr h, r\<lparr>pos := ?start\<rparr>)"
      unfolding readLFH_Inr_iff using ok by simp
    show "fst (ZipEntry_open dec e r) = Inr (BlobStream (take ?n (drop ?start (view r))))"
      using ok assms
      by (simp add: open_by_payload bindR_def read_payload_fits returnR_def bytes_at_def)
    show "length (take ?n (drop ?start (view r))) = ?n"
      using ok by auto
  }
  {
    assume bad: "\<not> (u32 (view r) ?off = 0x04034b50 \<and> ?start + ?n \<le> length (view r))"
    from read_payload_fails [OF bad, of dec] obtain err where
      e: "fst (read_payload dec ?off ?n r) = Inl err"
      and k: "cursor_error err \<or> err = SignatureMismatch"
      by blast
    obtain x r1 where p: "read_payload dec ?off ?n r = (x, r1)"
      by (cases "read_payload dec ?off ?n r")
    have "fst (ZipEntry_open dec e r) = Inl err"
      using e p by (simp add: open_by_payload bindR_def)
    then show "\<exists>err. fst (ZipEntry_open dec e r) = Inl err
         \<and> (cursor_error err \<or> err = SignatureMismatch)"
      using k by blast
  }
qed

theorem open_stored_yields_payload_witness:
  "CentralDirectoryEntry.compressionMethod (cde (entry_of (demo_record 0 3 65 ''a''))) = 0
   \<and> fst (ZipEntry_open latin1 (entry_of (demo_record 0 3 65 ''a'')) \<lparr>view = demo_zip, pos = 0\<rparr>)
       = Inr (BlobStream [121, 111, 33])"
proof -
  have m: "CentralDirectoryEntry.compressionMethod (cde (entry_of (demo_record 0 3 65 ''a''))) = 0"
    by (simp add: entry_of_def demo_record_def)
  from open_stored_yields_payload [OF m, of "\<lparr>view = demo_zip, pos = 0\<rparr>" latin1]
  show ?thesis
    using demo_payload
    by (simp add: m entry_of_def demo_record_def demo_headers demo_zip_length bytes_at_def)
qed




text \<open>
  For every entry whose name is not \<open>__proto__\<close>, the code does what C3
  says. A directory record whose method is neither 0 nor 8
  does not make the directory parse fail: parsing never raises the
  unsupported-method error, a record is decoded exactly when its signature
  matches and its fields fit (whatever its method field holds), and every
  decoded record whose name is not \<open>__proto__\<close> gets the own property of
  its name in the catalog. The unsupported-method error comes from \<open>open()\<close>
  on such an entry alone (once its local header and payload were read), and
  what \<open>open()\<close> of any other entry returns is the same after that failed
  call as before it.
\<close>

theorem unsupported_method_fails_at_open_only:
  "fst (unzip dec buf) \<noteq> Inl (NotSupported k)
   \<and> fst (readCentralDirectoryEntry dec r) \<noteq> Inl (NotSupported k)
   \<and> ((\<exists>c r'. readCentralDirectoryEntry dec r = (Inr c, r')) \<longleftrightarrow>
        pos r + 46 \<le> length (view r) \<and> u32 (view r) (pos r) = 0x02014b50
        \<and> pos r + 46 + u16 (view r) (pos r + 28) + u16 (view r) (pos r + 30)
             + u16 (view r) (pos r + 32) \<le> length (view r))
   \<and> (readCentralDirectoryEntry dec r = (Inr c, r') \<longrightarrow>
        CentralDirectoryEntry.compressionMethod c = u16 (view r) (pos r + 10))
   \<and> (fst (unzip dec buf) = Inr cat \<and> directory_records dec buf = Inr cdes \<and> c \<in> set cdes
        \<and> CentralDirectoryEntry.fileName c \<noteq> ''__proto__''
        \<longrightarrow> (\<exists>e. own cat (CentralDirectoryEntry.fileName c) = Some e
               \<and> name e = CentralDirectoryEntry.fileName c))
   \<and> (CentralDirectoryEntry.compressionMethod (cde e) \<noteq> 0
        \<and> CentralDirectoryEntry.compressionMethod (cde e) \<noteq> 8 \<longrightarrow>
          (\<exists>err. fst (ZipEntry_open dec e r) = Inl err)
        \<and> (u32 (view r) (relativeOffsetOfLocalHeader (cde e)) = 0x04034b50
            \<and> payload_start (view r) (relativeOffsetOfLocalHeader (cde e))
                 + CentralDirectoryEntry.compressedSize (cde e) \<le> length (view r)
            \<longrightarrow> fst (ZipEntry_open dec e r)
                  = Inl (NotSupported (CentralDirectoryEntry.compressionMethod (cde e)))))
   \<and> (fst (ZipEntry_open dec e r) = Inl (NotSupported k) \<longrightarrow>
        k = CentralDirectoryEntry.compressionMethod (cde e) \<and> k \<noteq> 0 \<and> k \<noteq> 8)
   \<and> fst (ZipEntry_open dec e' (snd (ZipEntry_open dec e r))) = fst (ZipEntry_open dec e' r)"
proof (intro conjI impI)
  show "fst (unzip dec buf) \<noteq> Inl (NotSupported k)"
    using unzip_error [of dec buf "NotSupported k"] by auto
  show "fst (readCentralDirectoryEntry dec r) \<noteq> Inl (NotSupported k)"
    using reading_ok_error [OF reading_ok_readCDE, of dec r "NotSupported k"] by auto
  show "(\<exists>c r'. readCentralDirectoryEntry dec r = (Inr c, r')) \<longleftrightarrow>
        pos r + 46 \<le> length (view r) \<and> u32 (view r) (pos r) = 0x02014b50
        \<and> pos r + 46 + u16 (view r) (pos r + 28) + u16 (view r) (pos r + 30)
             + u16 (view r) (pos r + 32) \<le> length (view r)"
  proof -
    have "(\<exists>c r'. readCentralDirectoryEntry dec r = (Inr c, r')) \<longleftrightarrow>
          (\<exists>r'. \<exists>c. readCentralDirectoryEntry dec r = (Inr c, r'))"
      by blast
    then show ?thesis unfolding readCDE_Inr_iff by simp
  qed
next
  assume "readCentralDirectoryEntry dec r = (Inr c, r')"
  from readCDE_Inr [OF this]
  show "CentralDirectoryEntry.compressionMethod c = u16 (view r) (pos r + 10)" by simp
next
  assume a: "fst (unzip dec buf) = Inr cat \<and> directory_records dec buf = Inr cdes \<and> c \<in> set cdes
        \<and> CentralDirectoryEntry.fileName c \<noteq> ''__proto__''"
  then have "cat = fold put_entry cdes empty_object"
    unfolding unzip_Inr_iff by auto
  moreover have "filter (\<lambda>d. CentralDirectoryEntry.fileName d = CentralDirectoryEntry.fileName c) cdes \<noteq> []"
    using a by (auto simp: filter_empty_conv)
  ultimately show "\<exists>e. own cat (CentralDirectoryEntry.fileName c) = Some e
               \<and> name e = CentralDirectoryEntry.fileName c"
    using a by (simp add: fold_put_entry_own split: list.splits)
next
  assume m: "CentralDirectoryEntry.compressionMethod (cde e) \<noteq> 0
        \<and> CentralDirectoryEntry.compressionMethod (cde e) \<noteq> 8"
  show "\<exists>err. fst (ZipEntry_open dec e r) = Inl err"
  proof (cases "fst (ZipEntry_open dec e r)")
    case (Inl err)
    then show ?thesis by blast
  next
    case (Inr s)
    then obtain x r1 where p: "read_payload dec (relativeOffsetOfLocalHeader (cde e))
        (CentralDirectoryEntry.compressedSize (cde e)) r = (Inr x, r1)"
      by (cases "read_payload dec (relativeOffsetOfLocalHeader (cde e))
            (CentralDirectoryEntry.compressedSize (cde e)) r")
         (auto simp: open_by_payload bindR_def split: sum.splits)
    then show ?thesis using Inr m
      by (simp add: open_by_payload bindR_def throwR_def)
  qed
next
  assume "CentralDirectoryEntry.compressionMethod (cde e) \<noteq> 0
        \<and> CentralDirectoryEntry.compressionMethod (cde e) \<noteq> 8"
    and "u32 (view r) (relativeOffsetOfLocalHeader (cde e)) = 0x04034b50
            \<and> payload_start (view r) (relativeOffsetOfLocalHeader (cde e))
                 + CentralDirectoryEntry.compressedSize (cde e) \<le> length (view r)"
  then show "fst (ZipEntry_open dec e r)
                  = Inl (NotSupported (CentralDirectoryEntry.compressionMethod (cde e)))"
    by (simp add: open_by_payload bindR_def read_payload_fits throwR_def)
next
  assume n: "fst (ZipEntry_open dec e r) = Inl (NotSupported k)"
  from reading_ok_error [OF reading_ok_open n]
  show k: "k = CentralDirectoryEntry.compressionMethod (cde e)" by simp
  have "\<not> (CentralDirectoryEntry.compressionMethod (cde e) = 0
           \<or> CentralDirectoryEntry.compressionMethod (cde e) = 8)"
  proof
    assume "CentralDirectoryEntry.compressionMethod (cde e) = 0
           \<or> CentralDirectoryEntry.compressionMethod (cde e) = 8"
    from open_supported_error [OF this n] show False by simp
  qed
  then show "k \<noteq> 0" "k \<noteq> 8" using k by simp_all
next
  show "fst (ZipEntry_open dec e' (snd (ZipEntry_open dec e r))) = fst (ZipEntry_open dec e' r)"
    by (rule open_same_view) (rule open_view)
qed

theorem unsupported_method_fails_at_open_only_witness:
  "(\<exists>cat. fst (unzip latin1 demo_zip) = Inr cat
      \<and> own cat ''b'' = Some (entry_of (demo_record 99 1 33 ''b'')))
   \<and> fst (ZipEntry_open latin1 (entry_of (demo_record 99 1 33 ''b''))
            \<lparr>view = demo_zip, pos = 0\<rparr>) = Inl (NotSupported 99)
   \<and> fst (ZipEntry_open latin1 (entry_of (demo_record 0 3 65 ''a''))
            (snd (ZipEntry_open latin1 (entry_of (demo_record 99 1 33 ''b''))
               \<lparr>view = demo_zip, pos = 0\<rparr>)))
       = fst (ZipEntry_open latin1 (entry_of (demo_record 0 3 65 ''a''))
            \<lparr>view = demo_zip, pos = 0\<rparr>)"
proof -
  obtain cat where c: "fst (unzip latin1 demo_zip) = Inr cat"
    using demo_unzip by blast
  have b: "demo_record 99 1 33 ''b'' \<in> set demo_records"
    by (simp add: demo_records_def)
  note t = unsupported_method_fails_at_open_only
    [of latin1 demo_zip 99 "\<lparr>view = demo_zip, pos = 0\<rparr>" "demo_record 99 1 33 ''b''" _ cat
        demo_records "entry_of (demo_record 99 1 33 ''b'')"
        "entry_of (demo_record 0 3 65 ''a'')"]
  have "cat = fold put_entry demo_records empty_object"
    using c unfolding unzip_Inr_iff by (auto simp: demo_directory)
  then have "own cat ''b'' = Some (entry_of (demo_record 99 1 33 ''b''))"
    by (simp add: put_entry_own demo_records_def demo_record_def entry_of_def empty_object_def)
  moreover have "fst (ZipEntry_open latin1 (entry_of (demo_record 99 1 33 ''b''))
            \<lparr>view = demo_zip, pos = 0\<rparr>) = Inl (NotSupported 99)"
    using t by (simp add: entry_of_def demo_record_def demo_headers demo_zip_length)
  moreover have "fst (ZipEntry_open latin1 (entry_of (demo_record 0 3 65 ''a''))
            (snd (ZipEntry_open latin1 (entry_of (demo_record 99 1 33 ''b''))
               \<lparr>view = demo_zip, pos = 0\<rparr>)))
       = fst (ZipEntry_open latin1 (entry_of (demo_record 0 3 65 ''a''))
            \<lparr>view = demo_zip, pos = 0\<rparr>)"
    using t by blast
  ultimately show ?thesis using c by blast
qed

text \<open>
  C5. What \<open>open()\<close> returns depends on the entry's directory record and the
  archive buffer alone: not on where the shared cursor stands, not on the
  entry's name. No call changes the buffer. An entry opened after any other
  call returns what it returns on a fresh cursor, and so does every call of a
  sequence of calls on the same or different entries.
\<close>

theorem open_is_repeatable:
  "fst (ZipEntry_open dec e \<lparr>view = buf, pos = p\<rparr>)
     = fst (ZipEntry_open dec e \<lparr>view = buf, pos = q\<rparr>)
   \<and> fst (ZipEntry_open dec \<lparr>name = nm, cde = c\<rparr> r)
     = fst (ZipEntry_open dec \<lparr>name = nm', cde = c\<rparr> r)
   \<and> view (snd (ZipEntry_open dec e r)) = view r
   \<and> fst (ZipEntry_open dec e (snd (ZipEntry_open dec e' r))) = fst (ZipEntry_open dec e r)
   \<and> fst (open_in_turn dec es r)
     = map (\<lambda>e. fst (ZipEntry_open dec e \<lparr>view = view r, pos = 0\<rparr>)) es
   \<and> view (snd (open_in_turn dec es r)) = view r"
proof (intro conjI)
  show "fst (ZipEntry_open dec e \<lparr>view = buf, pos = p\<rparr>)
     = fst (ZipEntry_open dec e \<lparr>view = buf, pos = q\<rparr>)"
    by (rule open_same_view) simp
  show "fst (ZipEntry_open dec \<lparr>name = nm, cde = c\<rparr> r)
     = fst (ZipEntry_open dec \<lparr>name = nm', cde = c\<rparr> r)"
    by (simp add: ZipEntry_open_def Let_def cong: if_cong)
  show "view (snd (ZipEntry_open dec e r)) = view r"
    by (rule open_view)
  show "fst (ZipEntry_open dec e (snd (ZipEntry_open dec e' r))) = fst (ZipEntry_open dec e r)"
    by (rule open_same_view) (rule open_view)
  have "map (\<lambda>e. fst (ZipEntry_open dec e r)) es
      = map (\<lambda>e. fst (ZipEntry_open dec e \<lparr>view = view r, pos = 0\<rparr>)) es"
    using open_same_view [of r "\<lparr>view = view r, pos = 0\<rparr>" dec] by simp
  then show "fst (open_in_turn dec es r)
     = map (\<lambda>e. fst (ZipEntry_open dec e \<lparr>view = view r, pos = 0\<rparr>)) es"
    using open_in_turn_eq [of dec es r] by simp
  show "view (snd (open_in_turn dec es r)) = view r"
    using open_in_turn_eq [of dec es r] by simp
qed

theorem open_is_repeatable_witness:
  "fst (open_in_turn latin1
         [entry_of (demo_record 0 3 65 ''a''), entry_of (demo_record 99 1 33 ''b''),
          entry_of (demo_record 0 3 65 ''a'')] \<lparr>view = demo_zip, pos = 7\<rparr>)
     = [Inr (BlobStream [121, 111, 33]), Inl (NotSupported 99),
        Inr (BlobStream [121, 111, 33])]"
proof -
  have a: "fst (ZipEntry_open latin1 (entry_of (demo_record 0 3 65 ''a''))
      \<lparr>view = demo_zip, pos = 0\<rparr>) = Inr (BlobStream [121, 111, 33])"
    using demo_payload
    by (simp add: open_by_payload bindR_def read_payload_fits returnR_def
          entry_of_def demo_record_def demo_headers demo_zip_length)
  have b: "fst (ZipEntry_open latin1 (entry_of (demo_record 99 1 33 ''b''))
      \<lparr>view = demo_zip, pos = 0\<rparr>) = Inl (NotSupported 99)"
    by (simp add: open_by_payload bindR_def read_payload_fits throwR_def
          entry_of_def demo_record_def demo_headers demo_zip_length)
  have "fst (open_in_turn latin1
         [entry_of (demo_record 0 3 65 ''a''), entry_of (demo_record 99 1 33 ''b''),
          entry_of (demo_record 0 3 65 ''a'')] \<lparr>view = demo_zip, pos = 7\<rparr>)
     = map (\<lambda>e. fst (ZipEntry_open latin1 e \<lparr>view = view \<lparr>view = demo_zip, pos = 7\<rparr>, pos = 0\<rparr>))
         [entry_of (demo_record 0 3 65 ''a''), entry_of (demo_record 99 1 33 ''b''),
          entry_of (demo_record 0 3 65 ''a'')]"
    by (rule open_is_repeatable [THEN conjunct2, THEN conjunct2, THEN conjunct2,
          THEN conjunct2, THEN conjunct1])
  then show ?thesis by (simp only: list.map Reader.simps a b)
qed



text \<open>
  C9, as it is stated, fails on its example: the trailer of \<open>bigdir_zip\<close>, a
  buffer of 102 bytes, gives the central directory a size of 1000 bytes, and
  \<open>unzip\<close> returns the catalog of its one entry. The size field is decoded
  and never looked at.
\<close>

theorem oversized_directory_size_counterexample:
  "length bigdir_zip = 102
   \<and> map_sum id sizeOfTheCentralDirectory
        (fst (readEndOfCentralDirectoryRecord \<lparr>view = bigdir_zip, pos = 80\<rparr>)) = Inr 1000
   \<and> fst (unzip latin1 bigdir_zip) = Inr bigdir_catalog"
  using bigdir_trailer bigdir_size_field bigdir_unzip by simp

text \<open>
  C9, as the code has it. Every operation of the cursor checks its bounds
  before it touches the buffer. \<open>seek\<close> of a negative position resolves it to
  \<open>length + pos\<close>; it fails when the resolved position is negative or greater
  than the length, and sets the position otherwise. \<open>readU4\<close>, \<open>readU2\<close> and
  \<open>readBytes n\<close> fail when \<open>position + size > length\<close>, and otherwise return
  the bytes at the position and advance it by the size. The range error of
  the platform is never raised, by no operation, by \<open>unzip\<close> or by \<open>open()\<close>,
  on any buffer. An archive whose trailer announces more directory entries
  from its directory offset on than the buffer can hold (\<open>offset + 46 * count
  > length\<close>) makes \<open>unzip\<close> fail with an error of its own; the size the
  trailer gives for the directory plays no part.
\<close>

theorem cursor_is_bounds_checked:
  "(p < 0 \<longrightarrow>
      seek p r =
        (if int (length (view r)) + p < 0
         then (Inl (SeekNegative (int (length (view r)) + p)), r)
         else (Inr (), r\<lparr>pos := nat (int (length (view r)) + p)\<rparr>)))
   \<and> (0 \<le> p \<longrightarrow>
      seek p r =
        (if int (length (view r)) < p then (Inl (SeekBeyond p), r)
         else (Inr (), r\<lparr>pos := nat p\<rparr>)))
   \<and> readU4 r =
        (if pos r + 4 > length (view r)
         then (Inl (ReadBeyond (pos r) 4 (length (view r))), r)
         else (Inr (le_nat (take 4 (drop (pos r) (view r)))), r\<lparr>pos := pos r + 4\<rparr>))
   \<and> readU2 r =
        (if pos r + 2 > length (view r)
         then (Inl (ReadBeyond (pos r) 2 (length (view r))), r)
         else (Inr (le_nat (take 2 (drop (pos r) (view r)))), r\<lparr>pos := pos r + 2\<rparr>))
   \<and> readBytes n r =
        (if pos r + n > length (view r)
         then (Inl (ReadBeyond (pos r) n (length (view r))), r)
         else (Inr (take n (drop (pos r) (view r))), r\<lparr>pos := pos r + n\<rparr>))
   \<and> (pos r + n \<le> length (view r) \<longrightarrow> length (take n (drop (pos r) (view r))) = n)
   \<and> fst (seek p r) \<noteq> Inl RangeError
   \<and> fst (readU4 r) \<noteq> Inl RangeError
   \<and> fst (readU2 r) \<noteq> Inl RangeError
   \<and> fst (readBytes n r) \<noteq> Inl RangeError
   \<and> fst (readString dec n r) \<noteq> Inl RangeError
   \<and> fst (unzip dec buf) \<noteq> Inl RangeError
   \<and> fst (ZipEntry_open dec e r) \<noteq> Inl RangeError
   \<and> (length buf < trailer_offset buf + 46 * trailer_count buf \<longrightarrow>
        (\<exists>err. fst (unzip dec buf) = Inl err
           \<and> (cursor_error err \<or> err = NotImplemented \<or> err = SignatureMismatch)))"
proof (intro conjI impI)
  assume "p < 0"
  then show "seek p r =
        (if int (length (view r)) + p < 0
         then (Inl (SeekNegative (int (length (view r)) + p)), r)
         else (Inr (), r\<lparr>pos := nat (int (length (view r)) + p)\<rparr>))"
    by (simp add: seek_eq Let_def)
next
  assume "0 \<le> p"
  then show "seek p r =
        (if int (length (view r)) < p then (Inl (SeekBeyond p), r)
         else (Inr (), r\<lparr>pos := nat p\<rparr>))"
    by (simp add: seek_eq Let_def)
next
  show "readU4 r =
        (if pos r + 4 > length (view r)
         then (Inl (ReadBeyond (pos r) 4 (length (view r))), r)
         else (Inr (le_nat (take 4 (drop (pos r) (view r)))), r\<lparr>pos := pos r + 4\<rparr>))"
    by (simp add: readU4_eq u32_def bytes_at_def)
  show "readU2 r =
        (if pos r + 2 > length (view r)
         then (Inl (ReadBeyond (pos r) 2 (length (view r))), r)
         else (Inr (le_nat (take 2 (drop (pos r) (view r)))), r\<lparr>pos := pos r + 2\<rparr>))"
    by (simp add: readU2_eq u16_def bytes_at_def)
  show "readBytes n r =
        (if pos r + n > length (view r)
         then (Inl (ReadBeyond (pos r) n (length (view r))), r)
         else (Inr (take n (drop (pos r) (view r))), r\<lparr>pos := pos r + n\<rparr>))"
    by (simp add: readBytes_eq bytes_at_def)
  show "fst (seek p r) \<noteq> Inl RangeError"
    by (simp add: seek_eq Let_def)
  show "fst (readU4 r) \<noteq> Inl RangeError"
    by (simp add: readU4_eq)
  show "fst (readU2 r) \<noteq> Inl RangeError"
    by (simp add: readU2_eq)
  show "fst (readBytes n r) \<noteq> Inl RangeError"
    by (simp add: readBytes_eq)
  show "fst (readString dec n r) \<noteq> Inl RangeError"
    by (simp add: readString_eq)
  show "fst (unzip dec buf) \<noteq> Inl RangeError"
    using unzip_error [of dec buf RangeError] by auto
  show "fst (ZipEntry_open dec e r) \<noteq> Inl RangeError"
    using reading_ok_error [OF reading_ok_open, of dec e r RangeError] by auto
next
  assume "pos r + n \<le> length (view r)"
  then show "length (take n (drop (pos r) (view r))) = n" by auto
next
  assume t: "length buf < trailer_offset buf + 46 * trailer_count buf"
  show "\<exists>err. fst (unzip dec buf) = Inl err
           \<and> (cursor_error err \<or> err = NotImplemented \<or> err = SignatureMismatch)"
  proof (cases "fst (unzip dec buf)")
    case (Inl err)
    then show ?thesis using unzip_error [of dec buf err] by blast
  next
    case (Inr cat)
    from unzip_Inr_fits [OF this] t show ?thesis by simp
  qed
qed

theorem cursor_is_bounds_checked_witness:
  "length trunc_zip < trailer_offset trunc_zip + 46 * trailer_count trunc_zip
   \<and> (\<exists>err. fst (unzip latin1 trunc_zip) = Inl err \<and> err \<noteq> RangeError)
   \<and> seek (- 22) \<lparr>view = trunc_zip, pos = 0\<rparr> = (Inr (), \<lparr>view = trunc_zip, pos = 80\<rparr>)
   \<and> seek (- 103) \<lparr>view = trunc_zip, pos = 0\<rparr>
        = (Inl (SeekNegative (- 1)), \<lparr>view = trunc_zip, pos = 0\<rparr>)
   \<and> seek 103 \<lparr>view = trunc_zip, pos = 0\<rparr>
        = (Inl (SeekBeyond 103), \<lparr>view = trunc_zip, pos = 0\<rparr>)
   \<and> readU4 \<lparr>view = trunc_zip, pos = 99\<rparr>
        = (Inl (ReadBeyond 99 4 102), \<lparr>view = trunc_zip, pos = 99\<rparr>)"
proof -
  have l: "length trunc_zip < trailer_offset trunc_zip + 46 * trailer_count trunc_zip"
    by (simp add: trunc_trailer)
  note t = cursor_is_bounds_checked [where buf = trunc_zip and dec = latin1]
  note last = t [THEN conjunct2, THEN conjunct2, THEN conjunct2, THEN conjunct2,
    THEN conjunct2, THEN conjunct2, THEN conjunct2, THEN conjunct2, THEN conjunct2,
    THEN conjunct2, THEN conjunct2, THEN conjunct2, THEN conjunct2, THEN mp, OF l]
  from last obtain err where
    e: "fst (unzip latin1 trunc_zip) = Inl err"
    and k: "cursor_error err \<or> err = NotImplemented \<or> err = SignatureMismatch"
    by blast
  from k have "err \<noteq> RangeError" by auto
  with e have "\<exists>err. fst (unzip latin1 trunc_zip) = Inl err \<and> err \<noteq> RangeError"
    by blast
  moreover have "seek (- 22) \<lparr>view = trunc_zip, pos = 0\<rparr>
      = (Inr (), \<lparr>view = trunc_zip, pos = 80\<rparr>)"
    using t [where p = "- 22" and r = "\<lparr>view = trunc_zip, pos = 0\<rparr>"]
    by (simp add: trunc_trailer)
  moreover have "seek (- 103) \<lparr>view = trunc_zip, pos = 0\<rparr>
        = (Inl (SeekNegative (- 1)), \<lparr>view = trunc_zip, pos = 0\<rparr>)"
    using t [where p = "- 103" and r = "\<lparr>view = trunc_zip, pos = 0\<rparr>"]
    by (simp add: trunc_trailer)
  moreover have "seek 103 \<lparr>view = trunc_zip, pos = 0\<rparr>
        = (Inl (SeekBeyond 103), \<lparr>view = trunc_zip, pos = 0\<rparr>)"
    using t [where p = 103 and r = "\<lparr>view = trunc_zip, pos = 0\<rparr>"]
    by (simp add: trunc_trailer)
  moreover have "readU4 \<lparr>view = trunc_zip, pos = 99\<rparr>
        = (Inl (ReadBeyond 99 4 102), \<lparr>view = trunc_zip, pos = 99\<rparr>)"
    using t [where r = "\<lparr>view = trunc_zip, pos = 99\<rparr>"]
    by (simp add: trunc_trailer)
  ultimately show ?thesis using l by blast
qed

section \<open>Properties of the memory accessors\<close>

lemma getUint32_in:
  "0 \<le> p \<Longrightarrow> p + 4 \<le> int (length mem) \<Longrightarrow> getUint32 mem p = Inr (u32 mem (nat p))"
  by (simp add: getUint32_def getUint_def u32_def)

lemma Uint8Array_view_in:
  "buf + n \<le> length mem \<Longrightarrow> Uint8Array_view mem (int buf) n = Inr (bytes_at mem buf n)"
  by (simp add: Uint8Array_view_def)

lemma setUint32_in:
  "0 \<le> p \<Longrightarrow> p + 4 \<le> int (length mem) \<Longrightarrow>
     setUint32 mem p v = Inr (store mem (nat p) (le_bytes 4 (nat (v mod 2 ^ 32))))"
  by (simp add: setUint32_def)

lemma length_le_bytes: "length (le_bytes k v) = k"
  by (induction k arbitrary: v) simp_all

lemma le_nat_le_bytes: "le_nat (le_bytes k v) = v mod 256 ^ k"
proof (induction k arbitrary: v)
  case 0
  then show ?case by simp
next
  case (Suc k)
  have "unat (word_of_nat (v mod 256) :: byte) = v mod 256"
    by (simp add: unat_of_nat)
  then show ?case
    by (simp add: Suc.IH mod_mult2_eq)
qed

lemma le_bytes_4:
  "le_bytes 4 v =
     [word_of_nat (v mod 256), word_of_nat (v div 256 mod 256),
      word_of_nat (v div 256 div 256 mod 256), word_of_nat (v div 256 div 256 div 256 mod 256)]"
proof -
  have "(4::nat) = Suc (Suc (Suc (Suc 0)))" by simp
  then show ?thesis by (simp only: le_bytes.simps)
qed

lemma length_store: "p + length bs \<le> length mem \<Longrightarrow> length (store mem p bs) = length mem"
  by (simp add: store_def)

lemma bytes_at_store:
  "p + length bs \<le> length mem \<Longrightarrow> bytes_at (store mem p bs) p (length bs) = bs"
  by (simp add: store_def bytes_at_def)

lemma nth_store_outside:
  assumes "p + length bs \<le> length mem" "a < length mem" "a < p \<or> p + length bs \<le> a"
  shows "store mem p bs ! a = mem ! a"
proof -
  have lp: "length (take p mem) = p" using assms(1) by simp
  have "a < p \<or> p + length bs \<le> a" by (rule assms(3))
  then show ?thesis
  proof
    assume "a < p"
    then show ?thesis using lp by (simp add: store_def nth_append)
  next
    assume h: "p + length bs \<le> a"
    then have "store mem p bs ! a = (bs @ drop (p + length bs) mem) ! (a - p)"
      using lp by (simp add: store_def nth_append)
    also have "\<dots> = drop (p + length bs) mem ! (a - p - length bs)"
    proof -
      have "\<not> a - p < length bs" using h by arith
      then show ?thesis by (simp add: nth_append)
    qed
    also have "\<dots> = mem ! (p + length bs + (a - p - length bs))"
      using assms(1) by (simp only: nth_drop)
    also have "p + length bs + (a - p - length bs) = a"
      using h by simp
    finally show ?thesis .
  qed
qed

lemma nth_store_inside:
  assumes "p \<le> length mem" "p \<le> a" "a < p + length bs"
  shows "store mem p bs ! a = bs ! (a - p)"
proof -
  have lp: "length (take p mem) = p" using assms(1) by simp
  have "store mem p bs ! a = (bs @ drop (p + length bs) mem) ! (a - p)"
    using lp assms(2) by (simp add: store_def nth_append)
  also have "\<dots> = bs ! (a - p)"
  proof -
    have "a - p < length bs" using assms(2,3) by arith
    then show ?thesis by (simp add: nth_append)
  qed
  finally show ?thesis .
qed

lemma u32_setUint32:
  assumes "p + 4 \<le> length mem"
  shows "u32 (store mem p (le_bytes 4 v)) p = v mod 2 ^ 32"
proof -
  have "bytes_at (store mem p (le_bytes 4 v)) p (length (le_bytes 4 v)) = le_bytes 4 v"
    by (rule bytes_at_store) (simp add: length_le_bytes assms)
  then have "u32 (store mem p (le_bytes 4 v)) p = le_nat (le_bytes 4 v)"
    by (simp add: u32_def length_le_bytes)
  then show ?thesis by (simp add: le_nat_le_bytes)
qed

section \<open>The claims about the module bridge\<close>

text \<open>
  C8. With the linear memory bound, \<open>fd_read\<close> on a descriptor other than 0
  and \<open>fd_write\<close> on a descriptor other than 1 and 2 return 8 and leave every
  variable of the bridge as it was: the memory (nothing is written, no count
  either) and the variables of the callbacks (none is invoked), whatever the
  pointers of the call are. (Before the memory is bound, both calls throw
  before they look at the descriptor.)
\<close>

theorem bad_descriptor_returns_8:
  "(fd \<noteq> 0 \<longrightarrow>
      fd_read fd iovsptr iovslen readptr (st\<lparr>memory := Some mem\<rparr>)
        = (Inr 8, st\<lparr>memory := Some mem\<rparr>))
   \<and> (fd \<noteq> 1 \<and> fd \<noteq> 2 \<longrightarrow>
      fd_write fd ciovsptr ciovslen writtenptr (st\<lparr>memory := Some mem\<rparr>)
        = Some (Inr 8, st\<lparr>memory := Some mem\<rparr>))"
  by (simp add: fd_read_def fd_write_def)

theorem bad_descriptor_returns_8_witness:
  "fd_read 1 0 2 24 reading_bridge = (Inr 8, reading_bridge)
   \<and> fd_write 0 0 2 24 (writing_bridge one_byte) = Some (Inr 8, writing_bridge one_byte)
   \<and> fd_write 3 0 2 24 (writing_bridge one_byte) = Some (Inr 8, writing_bridge one_byte)
   \<and> memory reading_bridge = Some demo_memory"
proof -
  have r: "reading_bridge = reading_bridge\<lparr>memory := Some demo_memory\<rparr>"
    by (simp add: reading_bridge_def initialize_def)
  have w: "writing_bridge one_byte = (writing_bridge one_byte)\<lparr>memory := Some demo_memory\<rparr>"
    by (simp add: writing_bridge_def initialize_def)
  have "fd_read 1 0 2 24 reading_bridge = (Inr 8, reading_bridge)"
    using bad_descriptor_returns_8 [where fd = 1 and st = reading_bridge and mem = demo_memory] r
    by simp
  moreover have "fd_write 0 0 2 24 (writing_bridge one_byte)
      = Some (Inr 8, writing_bridge one_byte)"
    using bad_descriptor_returns_8
      [where fd = 0 and st = "writing_bridge one_byte" and mem = demo_memory] w
    by simp
  moreover have "fd_write 3 0 2 24 (writing_bridge one_byte)
      = Some (Inr 8, writing_bridge one_byte)"
    using bad_descriptor_returns_8
      [where fd = 3 and st = "writing_bridge one_byte" and mem = demo_memory] w
    by simp
  moreover have "memory reading_bridge = Some demo_memory"
    by (simp add: reading_bridge_def initialize_def)
  ultimately show ?thesis by blast
qed

text \<open>
  C10. \<open>fd_read\<close> on descriptor 0 with a vector count of 0, the memory bound
  and the result location in it: the call returns 0 (success), the four bytes
  at the result location hold 0, and nothing else of the bridge changes. The
  provider is not invoked: its variables, and with them the record a counting
  provider keeps of its calls, are as before.
\<close>

theorem fd_read_no_vectors:
  assumes "memory st = Some mem" "0 \<le> readptr" "readptr + 4 \<le> int (length mem)"
  shows "fd_read 0 iovsptr 0 readptr st
           = (Inr 0, st\<lparr>memory := Some (store mem (nat readptr) [0, 0, 0, 0])\<rparr>)
     \<and> u32 (store mem (nat readptr) [0, 0, 0, 0]) (nat readptr) = 0
     \<and> world (snd (fd_read 0 iovsptr 0 readptr st)) = world st"
proof -
  have z: "le_bytes 4 0 = [0, 0, 0, 0]" by (simp add: le_bytes_4)
  have "fd_read 0 iovsptr 0 readptr st
           = (Inr 0, st\<lparr>memory := Some (store mem (nat readptr) [0, 0, 0, 0])\<rparr>)"
    using assms by (simp add: fd_read_def setUint32_in z)
  moreover have "u32 (store mem (nat readptr) [0, 0, 0, 0]) (nat readptr) = 0"
    using u32_setUint32 [of "nat readptr" mem 0] assms by (simp add: z)
  ultimately show ?thesis by simp
qed

theorem fd_read_no_vectors_witness:
  "fd_read 0 0 0 24 reading_bridge
     = (Inr 0, reading_bridge\<lparr>memory := Some (store demo_memory 24 [0, 0, 0, 0])\<rparr>)
   \<and> world (snd (fd_read 0 0 0 24 reading_bridge)) = (demo_vars, [])"
proof -
  have m: "memory reading_bridge = Some demo_memory"
    by (simp add: reading_bridge_def initialize_def)
  have l: "(24::int) + 4 \<le> int (length demo_memory)"
    by (simp add: demo_memory_def)
  have w: "world reading_bridge = (demo_vars, [])"
    by (simp add: reading_bridge_def initialize_def wasip1_new_def)
  from fd_read_no_vectors [OF m _ l, where iovsptr = 0] w show ?thesis by simp
qed



text \<open>
  C6. \<open>fd_read\<close> on descriptor 0 with at least one vector, the memory bound,
  the first vector and the range it names and the result location inside the
  memory, and a provider that returns: the call returns 0; the provider has
  been invoked once, with a view as long as the first vector says (a counting
  provider has recorded that one length); the memory after the call is the
  memory before it with the bytes the provider left in its view stored at the
  first vector's address, and then the count the provider returned stored at
  the result location (modulo \<open>2^32\<close>, so the count itself when it is below
  \<open>2^32\<close>). So the first vector's range holds the provider's bytes, the
  memory keeps its size, and every other byte is as before, the other vectors
  and the ranges they name among them.
\<close>

theorem fd_read_serves_first_vector_only:
  assumes mem: "memory st = Some mem"
    and cb: "stdin st = counted_read rd" "world st = (w, calls)"
    and n: "0 < iovslen"
    and vec: "0 \<le> iovsptr" "iovsptr + 8 \<le> int (length mem)"
    and rng: "u32 mem (nat iovsptr) + u32 mem (nat iovsptr + 4) \<le> length mem"
    and ret: "rd (bytes_at mem (u32 mem (nat iovsptr)) (u32 mem (nat iovsptr + 4))) w
              = (Inr (count, filled), w')"
    and res: "0 \<le> readptr" "readptr + 4 \<le> int (length mem)"
  shows "\<exists>mem'.
      mem' = store (store mem (u32 mem (nat iovsptr))
                      (take (u32 mem (nat iovsptr + 4)) filled))
                   (nat readptr) (le_bytes 4 (nat (count mod 2 ^ 32)))
      \<and> fd_read 0 iovsptr iovslen readptr st
        = (Inr 0, st\<lparr>memory := Some mem',
                     world := (w', calls @ [u32 mem (nat iovsptr + 4)])\<rparr>)
      \<and> length (bytes_at mem (u32 mem (nat iovsptr)) (u32 mem (nat iovsptr + 4)))
          = u32 mem (nat iovsptr + 4)
      \<and> length mem' = length mem
      \<and> int (u32 mem' (nat readptr)) = count mod 2 ^ 32
      \<and> (\<forall>a. u32 mem (nat iovsptr) \<le> a
            \<and> a < u32 mem (nat iovsptr) + min (u32 mem (nat iovsptr + 4)) (length filled)
            \<and> \<not> (nat readptr \<le> a \<and> a < nat readptr + 4)
            \<longrightarrow> mem' ! a = filled ! (a - u32 mem (nat iovsptr)))
      \<and> (\<forall>a < length mem.
            \<not> (u32 mem (nat iovsptr) \<le> a
                 \<and> a < u32 mem (nat iovsptr) + min (u32 mem (nat iovsptr + 4)) (length filled))
            \<and> \<not> (nat readptr \<le> a \<and> a < nat readptr + 4)
            \<longrightarrow> mem' ! a = mem ! a)"
proof -
  let ?buf = "u32 mem (nat iovsptr)"
  let ?len = "u32 mem (nat iovsptr + 4)"
  let ?b = "bytes_at mem ?buf ?len"
  let ?mem1 = "store mem ?buf (take ?len filled)"
  let ?v = "le_bytes 4 (nat (count mod 2 ^ 32))"
  let ?mem2 = "store ?mem1 (nat readptr) ?v"
  have lb: "length ?b = ?len" using rng by (auto simp: bytes_at_def)
  have g0: "getUint32 mem (iovsptr + (0 * 8) + 0) = Inr ?buf"
    using vec by (simp add: getUint32_in)
  have g4: "getUint32 mem (iovsptr + (0 * 8) + 4) = Inr ?len"
    using vec by (simp add: getUint32_in nat_add_distrib)
  have vw: "Uint8Array_view mem (int ?buf) ?len = Inr ?b"
    using rng by (rule Uint8Array_view_in)
  have call: "stdin st ?b (world st) = (Inr (count, filled), (w', calls @ [?len]))"
    using cb ret lb by (simp add: counted_read_def)
  have lt: "length (take ?len filled) = min ?len (length filled)"
    by (simp add: min.commute)
  have fit1: "?buf + length (take ?len filled) \<le> length mem"
    using rng by simp
  have l1: "length ?mem1 = length mem" using fit1 by (rule length_store)
  have s: "setUint32 ?mem1 readptr count = Inr ?mem2"
    using res l1 by (simp add: setUint32_in)
  have fit2: "nat readptr + length ?v \<le> length ?mem1"
    using res l1 by (simp add: length_le_bytes)
  have l2: "length ?mem2 = length mem" using length_store [OF fit2] l1 by simp
  have run: "fd_read 0 iovsptr iovslen readptr st
        = (Inr 0, st\<lparr>memory := Some ?mem2, world := (w', calls @ [?len])\<rparr>)"
    unfolding fd_read_def using mem n
    by (simp add: g0 [simplified] g4 [simplified] vw call s)
  have "u32 ?mem2 (nat readptr) = nat (count mod 2 ^ 32) mod 2 ^ 32"
    by (rule u32_setUint32) (use res l1 in simp)
  then have val: "int (u32 ?mem2 (nat readptr)) = count mod 2 ^ 32"
    by (simp add: nat_mod_distrib)
  have served: "?mem2 ! a = filled ! (a - ?buf)"
    if "?buf \<le> a" "a < ?buf + min ?len (length filled)"
      "\<not> (nat readptr \<le> a \<and> a < nat readptr + 4)" for a
  proof -
    have al: "a < length mem" using that(2) rng by simp
    have "?mem2 ! a = ?mem1 ! a"
      by (rule nth_store_outside [OF fit2]) (use that al l1 in \<open>auto simp: length_le_bytes\<close>)
    also have "\<dots> = take ?len filled ! (a - ?buf)"
      by (rule nth_store_inside) (use that rng lt in auto)
    also have "\<dots> = filled ! (a - ?buf)"
      using that by simp
    finally show ?thesis .
  qed
  have same: "?mem2 ! a = mem ! a"
    if "a < length mem"
      "\<not> (?buf \<le> a \<and> a < ?buf + min ?len (length filled))"
      "\<not> (nat readptr \<le> a \<and> a < nat readptr + 4)" for a
  proof -
    have "?mem2 ! a = ?mem1 ! a"
      by (rule nth_store_outside [OF fit2]) (use that l1 in \<open>auto simp: length_le_bytes\<close>)
    also have "\<dots> = mem ! a"
      by (rule nth_store_outside [OF fit1]) (use that lt in auto)
    finally show ?thesis .
  qed
  show ?thesis
    using run lb l2 val served same by blast
qed

theorem fd_read_serves_first_vector_only_witness:
  "fd_read 0 0 2 24 reading_bridge
     = (Inr 0, reading_bridge
          \<lparr>memory := Some
             [16, 0, 0, 0, 4, 0, 0, 0,  20, 0, 0, 0, 3, 0, 0, 0,
              9, 8, 3, 4,  5, 6, 7, 0,  2, 0, 0, 0, 0, 0, 0, 0],
           world := (demo_vars\<lparr>input := []\<rparr>, [4])\<rparr>)"
proof -
  have m: "memory reading_bridge = Some demo_memory"
    and i: "stdin reading_bridge = counted_read parse_stdin"
    and w: "world reading_bridge = (demo_vars, [])"
    by (simp_all add: reading_bridge_def initialize_def wasip1_new_def)
  have v: "u32 demo_memory 0 = 16" "u32 demo_memory 4 = 4"
    by (simp_all add: u32_def bytes_at_def demo_memory_def)
  have l: "length demo_memory = 32" by (simp add: demo_memory_def)
  have b: "bytes_at demo_memory 16 4 = [1, 2, 3, 4]"
    by (simp add: bytes_at_def demo_memory_def)
  have r: "parse_stdin (bytes_at demo_memory (u32 demo_memory (nat 0)) (u32 demo_memory (nat 0 + 4)))
      demo_vars = (Inr (2, [9, 8]), demo_vars\<lparr>input := []\<rparr>)"
    by (simp add: v b parse_stdin_def demo_vars_def)
  have e: "store (store demo_memory 16 (take 4 [9, 8])) 24 (le_bytes 4 2)
      = [16, 0, 0, 0, 4, 0, 0, 0,  20, 0, 0, 0, 3, 0, 0, 0,
         9, 8, 3, 4,  5, 6, 7, 0,  2, 0, 0, 0, 0, 0, 0, 0]"
    by (simp add: store_def le_bytes_4 demo_memory_def)
  from fd_read_serves_first_vector_only [OF m i w _ _ _ _ r, of 2 24]
  have "fd_read 0 0 2 24 reading_bridge
       = (Inr 0, reading_bridge
            \<lparr>memory := Some (store (store demo_memory 16 (take 4 [9, 8])) 24 (le_bytes 4 2)),
              world := (demo_vars\<lparr>input := []\<rparr>, [4])\<rparr>)"
    by (simp add: v l)
  then show ?thesis by (simp only: e)
qed

section \<open>The write loops\<close>

lemma slice_accepted:
  "0 \<le> n \<Longrightarrow> n \<le> int (length b) \<Longrightarrow> slice b n = drop (nat n) b"
  by (simp add: slice_def)

lemma fd_write_while_accepting:
  assumes prog: "\<forall>b wd. b \<noteq> [] \<longrightarrow>
      (\<exists>n wd'. wr b wd = (Inr n, wd') \<and> 1 \<le> n \<and> n \<le> int (length b))"
  shows "\<exists>wd'. fd_write_while (accepting wr) b written (wd, acc)
           = Some (Inr (written + int (length b)), (wd', acc @ b))"
proof (induction "length b" arbitrary: b written wd acc rule: less_induct)
  case less
  show ?case
  proof (cases "b = []")
    case True
    then show ?thesis by (subst fd_write_while.simps) simp
  next
    case False
    from prog False obtain n wd1 where
      c: "wr b wd = (Inr n, wd1)" and n: "1 \<le> n" "n \<le> int (length b)"
      by blast
    have shorter: "length (drop (nat n) b) < length b" using n False by simp
    from less [OF shorter, where written = "written + n" and wd = wd1
        and acc = "acc @ take (nat n) b"]
    obtain wd' where
      "fd_write_while (accepting wr) (drop (nat n) b) (written + n)
          (wd1, acc @ take (nat n) b)
        = Some (Inr (written + n + int (length (drop (nat n) b))),
                (wd', (acc @ take (nat n) b) @ drop (nat n) b))"
      by blast
    moreover have "written + n + int (length (drop (nat n) b)) = written + int (length b)"
      using n by simp
    ultimately have rest:
      "fd_write_while (accepting wr) (drop (nat n) b) (written + n)
          (wd1, acc @ take (nat n) b)
        = Some (Inr (written + int (length b)), (wd', acc @ b))"
      by simp
    have "fd_write_while (accepting wr) b written (wd, acc)
        = fd_write_while (accepting wr) (slice b n) (written + n) (wd1, acc @ take (nat n) b)"
      using False c by (subst fd_write_while.simps) (simp add: accepting_def)
    then show ?thesis using rest n by (simp add: slice_accepted)
  qed
qed

lemma fd_write_for_accepting:
  assumes prog: "\<forall>b wd. b \<noteq> [] \<longrightarrow>
      (\<exists>n wd'. wr b wd = (Inr n, wd') \<and> 1 \<le> n \<and> n \<le> int (length b))"
  shows "k = nat (ciovslen - i) \<Longrightarrow> iovecs_in_memory mem (ciovsptr + (i * 8)) k \<Longrightarrow>
     \<exists>wd'. fd_write_for (accepting wr) mem ciovsptr i ciovslen written (wd, acc)
       = Some (Inr (written + int (sum_list (map snd (iovecs mem (ciovsptr + (i * 8)) k)))),
               (wd', acc @ iovec_bytes mem (iovecs mem (ciovsptr + (i * 8)) k)))"
proof (induction k arbitrary: i written wd acc)
  case 0
  then have "\<not> i < ciovslen" by simp
  then show ?case
    by (subst fd_write_for.simps) (simp add: iovec_bytes_def)
next
  case (Suc k)
  let ?p = "ciovsptr + (i * 8)"
  let ?buf = "u32 mem (nat ?p)"
  let ?len = "u32 mem (nat ?p + 4)"
  from Suc.prems have lt: "i < ciovslen" and k: "k = nat (ciovslen - (i + 1))"
    by simp_all
  from Suc.prems(2) have
    p: "0 \<le> ?p" "?p + 8 \<le> int (length mem)" and
    rng: "?buf + ?len \<le> length mem" and
    rest: "iovecs_in_memory mem (ciovsptr + ((i + 1) * 8)) k"
    by (simp_all add: algebra_simps)
  have g0: "getUint32 mem (ciovsptr + (i * 8) + 0) = Inr ?buf"
    using p by (simp add: getUint32_in)
  have g4: "getUint32 mem (ciovsptr + (i * 8) + 4) = Inr ?len"
    using p by (simp add: getUint32_in nat_add_distrib)
  have vw: "Uint8Array_view mem (int ?buf) ?len = Inr (bytes_at mem ?buf ?len)"
    using rng by (rule Uint8Array_view_in)
  have lb: "length (bytes_at mem ?buf ?len) = ?len"
    using rng by (auto simp: bytes_at_def)
  from fd_write_while_accepting [OF prog, where b = "bytes_at mem ?buf ?len"
      and written = written and wd = wd and acc = acc]
  obtain wd1 where
    wh: "fd_write_while (accepting wr) (bytes_at mem ?buf ?len) written (wd, acc)
        = Some (Inr (written + int ?len), (wd1, acc @ bytes_at mem ?buf ?len))"
    using lb by auto
  from Suc.IH [OF k rest, where written = "written + int ?len" and wd = wd1
      and acc = "acc @ bytes_at mem ?buf ?len"]
  obtain wd' where
    ih: "fd_write_for (accepting wr) mem ciovsptr (i + 1) ciovslen (written + int ?len)
           (wd1, acc @ bytes_at mem ?buf ?len)
        = Some (Inr (written + int ?len
                     + int (sum_list (map snd (iovecs mem (ciovsptr + ((i + 1) * 8)) k)))),
               (wd', (acc @ bytes_at mem ?buf ?len)
                      @ iovec_bytes mem (iovecs mem (ciovsptr + ((i + 1) * 8)) k)))"
    by blast
  have step: "fd_write_for (accepting wr) mem ciovsptr i ciovslen written (wd, acc)
      = fd_write_for (accepting wr) mem ciovsptr (i + 1) ciovslen (written + int ?len)
           (wd1, acc @ bytes_at mem ?buf ?len)"
    using lt by (subst fd_write_for.simps) (simp add: g0 [simplified] g4 vw wh)
  have nx: "ciovsptr + ((i + 1) * 8) = ?p + 8" by (simp add: algebra_simps)
  show ?case
    unfolding step ih by (simp add: nx iovec_bytes_def add.assoc)
qed

lemma length_iovec_bytes:
  "iovecs_in_memory mem p k \<Longrightarrow>
     length (iovec_bytes mem (iovecs mem p k)) = sum_list (map snd (iovecs mem p k))"
proof (induction k arbitrary: p)
  case 0
  then show ?case by (simp add: iovec_bytes_def)
next
  case (Suc k)
  then have "length (iovec_bytes mem (iovecs mem (p + 8) k))
      = sum_list (map snd (iovecs mem (p + 8) k))"
    by simp
  moreover have "length (bytes_at mem (u32 mem (nat p)) (u32 mem (nat p + 4)))
      = u32 mem (nat p + 4)"
    using Suc.prems by (auto simp: bytes_at_def)
  ultimately show ?case by (simp add: iovec_bytes_def)
qed



text \<open>A consumer that accepts nothing keeps the inner loop from ever returning.\<close>

lemma fd_write_while_stalled:
  assumes a: "fd_write_while w b written wd = Some y"
  shows "w = stalled \<longrightarrow> b = []"
proof (rule fd_write_while.raw_induct
    [where P = "\<lambda>w b written wd y. w = stalled \<longrightarrow> b = []"
       and w = w and b = b and written = written and wd = wd and y = y])
  show "fd_write_while w b written wd = Some y" by (rule a)
next
  fix loop :: "unit Write \<Rightarrow> byte list \<Rightarrow> int \<Rightarrow> unit \<Rightarrow> ((error + int) \<times> unit) option"
    and w :: "unit Write" and b :: "byte list" and written :: int and wd :: unit
    and y :: "(error + int) \<times> unit"
  assume IH: "\<And>w b written wd y. loop w b written wd = Some y \<Longrightarrow> w = stalled \<longrightarrow> b = []"
    and body: "(if 0 < length b
      then case w b wd of (Inl e, wd') \<Rightarrow> Some (Inl e, wd')
           | (Inr n, wd') \<Rightarrow> loop w (slice b n) (written + n) wd'
      else Some (Inr written, wd)) = Some y"
  show "w = stalled \<longrightarrow> b = []"
  proof (intro impI, rule ccontr)
    assume s: "w = stalled" and ne: "b \<noteq> []"
    have c: "stalled b wd = (Inr 0, wd)" by (simp add: stalled_def)
    have z: "slice b 0 = b" by (simp add: slice_def)
    have "loop stalled b written wd = Some y"
      using body ne unfolding s c by (simp add: z)
    from IH [OF this] ne show False by simp
  qed
qed

text \<open>
  The outer loop under a consumer that makes progress, from the first vector
  on; the consumer that accepts all it is offered; the memories of the
  concrete calls.
\<close>

lemma fd_write_accepting_run:
  assumes mem: "memory st = Some mem"
    and fd: "fd = 1 \<or> fd = 2"
    and cb: "(if fd = 1 then stdout st else stderr st) = accepting wr"
      "world st = (wd, acc)"
    and prog: "\<forall>b wd. b \<noteq> [] \<longrightarrow>
      (\<exists>n wd'. wr b wd = (Inr n, wd') \<and> 1 \<le> n \<and> n \<le> int (length b))"
    and vecs: "iovecs_in_memory mem ciovsptr (nat ciovslen)"
  shows "\<exists>wd'. fd_write_for (accepting wr) mem ciovsptr 0 ciovslen 0 (world st)
        = Some (Inr (int (sum_list (map snd (iovecs mem ciovsptr (nat ciovslen))))),
                (wd', acc @ iovec_bytes mem (iovecs mem ciovsptr (nat ciovslen))))"
  using fd_write_for_accepting [OF prog, where k = "nat ciovslen" and ciovslen = ciovslen
      and i = 0 and mem = mem and ciovsptr = ciovsptr and written = 0 and wd = wd and acc = acc]
    vecs cb(2)
  by auto

lemma whole_accepts:
  "\<forall>b wd. b \<noteq> [] \<longrightarrow>
      (\<exists>n wd'. whole b wd = (Inr n, wd') \<and> 1 \<le> n \<and> n \<le> int (length b))"
  by (auto simp: whole_def Suc_le_eq)

lemma writing_bridge_on_fields:
  "memory (writing_bridge_on m wr) = Some m"
  "stdout (writing_bridge_on m wr) = accepting wr"
  "stderr (writing_bridge_on m wr) = accepting wr"
  "world (writing_bridge_on m wr) = ((), [])"
  by (simp_all add: writing_bridge_on_def initialize_def wasip1_new_def)

lemma writing_bridge_on_demo: "writing_bridge wr = writing_bridge_on demo_memory wr"
  by (simp add: writing_bridge_on_def writing_bridge_def)

lemma length_zeros: "length zeros = 2147549164"
  unfolding zeros_def by simp

lemma length_wrap_memory: "length wrap_memory = 2147549184"
  by (simp add: wrap_memory_def length_zeros)

lemma wrap_vectors:
  "u32 wrap_memory 0 = 0" "u32 wrap_memory 4 = 2147483648"
  "u32 wrap_memory 8 = 0" "u32 wrap_memory 12 = 2147483648"
  by (simp_all add: u32_def bytes_at_def wrap_memory_def)

text \<open>
  C7, as the code has it. \<open>fd_write\<close> on descriptor 1 or 2, the memory bound,
  the vector list, the ranges it names and the result location inside the
  memory, and a consumer that on every non-empty slice returns and accepts at
  least one byte and at most the bytes offered: the call returns, and returns
  0; the bytes the consumer accepted, call after call, are the bytes of the
  vectors in order, each vector to its declared length; the result location
  holds the sum of the declared lengths (modulo \<open>2^32\<close>).
\<close>

theorem fd_write_consumes_every_vector:
  assumes mem: "memory st = Some mem"
    and fd: "fd = 1 \<or> fd = 2"
    and cb: "(if fd = 1 then stdout st else stderr st) = accepting wr"
      "world st = (wd, acc)"
    and prog: "\<forall>b wd. b \<noteq> [] \<longrightarrow>
      (\<exists>n wd'. wr b wd = (Inr n, wd') \<and> 1 \<le> n \<and> n \<le> int (length b))"
    and vecs: "iovecs_in_memory mem ciovsptr (nat ciovslen)"
    and res: "0 \<le> writtenptr" "writtenptr + 4 \<le> int (length mem)"
  shows "\<exists>wd' mem'.
      fd_write fd ciovsptr ciovslen writtenptr st
        = Some (Inr 0, st\<lparr>memory := Some mem',
             world := (wd', acc @ iovec_bytes mem (iovecs mem ciovsptr (nat ciovslen)))\<rparr>)
      \<and> length (iovec_bytes mem (iovecs mem ciovsptr (nat ciovslen)))
          = sum_list (map snd (iovecs mem ciovsptr (nat ciovslen)))
      \<and> mem' = store mem (nat writtenptr)
                 (le_bytes 4 (sum_list (map snd (iovecs mem ciovsptr (nat ciovslen))) mod 2 ^ 32))
      \<and> u32 mem' (nat writtenptr)
          = sum_list (map snd (iovecs mem ciovsptr (nat ciovslen))) mod 2 ^ 32"
proof -
  let ?vs = "iovecs mem ciovsptr (nat ciovslen)"
  let ?total = "sum_list (map snd ?vs)"
  let ?mem' = "store mem (nat writtenptr) (le_bytes 4 (?total mod 2 ^ 32))"
  have sel: "(if fd = 1 then Some (stdout st) else if fd = 2 then Some (stderr st) else None)
      = Some (accepting wr)"
    using fd cb(1) by auto
  from fd_write_for_accepting [OF prog, where k = "nat ciovslen" and ciovslen = ciovslen
      and i = 0 and mem = mem and ciovsptr = ciovsptr and written = 0 and wd = wd and acc = acc]
    vecs
  obtain wd' where
    loop: "fd_write_for (accepting wr) mem ciovsptr 0 ciovslen 0 (wd, acc)
        = Some (Inr (int ?total), (wd', acc @ iovec_bytes mem ?vs))"
    by auto
  have "int ?total mod 2 ^ 32 = int (?total mod 2 ^ 32)"
    by (simp add: zmod_int)
  then have s: "setUint32 mem writtenptr (int ?total) = Inr ?mem'"
    using res by (simp add: setUint32_in)
  have run: "fd_write fd ciovsptr ciovslen writtenptr st
        = Some (Inr 0, st\<lparr>memory := Some ?mem', world := (wd', acc @ iovec_bytes mem ?vs)\<rparr>)"
    unfolding fd_write_def by (simp add: mem sel cb(2) loop s)
  have len: "length (iovec_bytes mem ?vs) = ?total"
    using vecs by (rule length_iovec_bytes)
  have "u32 ?mem' (nat writtenptr) = (?total mod 2 ^ 32) mod 2 ^ 32"
    by (rule u32_setUint32) (use res in simp)
  then have val: "u32 ?mem' (nat writtenptr) = ?total mod 2 ^ 32" by simp
  show ?thesis using run len val by blast
qed

theorem fd_write_consumes_every_vector_witness:
  "\<exists>mem'. fd_write 1 0 2 24 (writing_bridge one_byte)
       = Some (Inr 0, (writing_bridge one_byte)
            \<lparr>memory := Some mem', world := ((), [1, 2, 3, 4, 5, 6, 7])\<rparr>)
     \<and> u32 mem' 24 = 7"
proof -
  have m: "memory (writing_bridge one_byte) = Some demo_memory"
    and o: "(if (1::int) = 1 then stdout (writing_bridge one_byte)
             else stderr (writing_bridge one_byte)) = accepting one_byte"
    and w: "world (writing_bridge one_byte) = ((), [])"
    by (simp_all add: writing_bridge_def initialize_def wasip1_new_def)
  have p: "\<forall>b wd. b \<noteq> [] \<longrightarrow>
      (\<exists>n wd'. one_byte b wd = (Inr n, wd') \<and> 1 \<le> n \<and> n \<le> int (length b))"
    by (auto simp: one_byte_def Suc_le_eq)
  have u: "u32 demo_memory 0 = 16" "u32 demo_memory 4 = 4"
    "u32 demo_memory 8 = 20" "u32 demo_memory 12 = 3"
    by (simp_all add: u32_def bytes_at_def demo_memory_def)
  have l: "length demo_memory = 32" by (simp add: demo_memory_def)
  have two: "nat 2 = Suc (Suc 0)" by simp
  have vs: "iovecs demo_memory 0 (nat 2) = [(16, 4), (20, 3)]"
    unfolding two by (simp add: u)
  have inm: "iovecs_in_memory demo_memory 0 (nat 2)"
    unfolding two by (simp add: u l)
  have bs: "iovec_bytes demo_memory [(16, 4), (20, 3)] = [1, 2, 3, 4, 5, 6, 7]"
    by (simp add: iovec_bytes_def bytes_at_def demo_memory_def)
  have vs2: "iovecs demo_memory 0 2 = [(16, 4), (20, 3)]"
    using vs by simp
  from fd_write_consumes_every_vector [OF m _ o w p inm, of 24]
  have "fd_write 1 0 2 24 (writing_bridge one_byte)
       = Some (Inr 0, (writing_bridge one_byte)
            \<lparr>memory := Some (store demo_memory 24 (le_bytes 4 7)),
               world := ((), [1, 2, 3, 4, 5, 6, 7])\<rparr>)
     \<and> u32 (store demo_memory 24 (le_bytes 4 7)) 24 = 7"
    by (simp add: vs2 bs l)
  then show ?thesis by blast
qed

text \<open>
  C7, as it is stated, fails on each of these calls on descriptor 1:
  with the consumer that returns 0 on every slice, the call on two non-empty
  vectors never returns; with a consumer that accepts all it is offered, the
  call throws a \<open>RangeError\<close> when the vector list lies outside the memory
  (at 40 in a memory of 32 bytes), when a vector names a range outside it
  (100 bytes at 16), and when the result location does (at 30), and throws
  \<^verbatim>\<open>Memory not set.\<close> when no memory is bound; and with two vectors of
  \<open>2^31\<close> bytes each the declared lengths add up to \<open>2^32\<close>, the call
  returns 0, and the result location holds 0.
\<close>

theorem fd_write_as_stated_counterexample:
  "fd_write 1 0 2 24 stalled_bridge = None
   \<and> map_option fst (fd_write 1 40 2 24 (writing_bridge whole)) = Some (Inl RangeError)
   \<and> map_option fst (fd_write 1 0 1 24 (writing_bridge_on bad_memory whole)) = Some (Inl RangeError)
   \<and> map_option fst (fd_write 1 0 2 30 (writing_bridge whole)) = Some (Inl RangeError)
   \<and> map_option fst (fd_write 1 0 2 24 unbound_bridge) = Some (Inl MemoryNotSet)
   \<and> sum_list (map snd (iovecs wrap_memory 0 2)) = 4294967296
   \<and> map_option fst (fd_write 1 0 2 16 (writing_bridge_on wrap_memory whole)) = Some (Inr 0)
   \<and> map_option (\<lambda>r. map_option (\<lambda>m. u32 m 16) (memory (snd r)))
        (fd_write 1 0 2 16 (writing_bridge_on wrap_memory whole)) = Some (Some 0)"
proof -
  have u: "u32 demo_memory 0 = 16" "u32 demo_memory 4 = 4"
    "u32 demo_memory 8 = 20" "u32 demo_memory 12 = 3"
    by (simp_all add: u32_def bytes_at_def demo_memory_def)
  have l: "length demo_memory = 32" by (simp add: demo_memory_def)
  have two: "nat 2 = Suc (Suc 0)" by simp
  have inm: "iovecs_in_memory demo_memory 0 (nat 2)"
    unfolding two by (simp add: u l)
  have vs: "iovecs demo_memory 0 (nat 2) = [(16, 4), (20, 3)]"
    unfolding two by (simp add: u)
  \<comment> \<open>the consumer that accepts nothing\<close>
  have m: "memory stalled_bridge = Some demo_memory"
    and o: "stdout stalled_bridge = stalled"
    by (simp_all add: stalled_bridge_def ctrl_setup_def initialize_def wasip1_new_def)
  have b: "bytes_at demo_memory 16 4 = [1, 2, 3, 4]"
    by (simp add: bytes_at_def demo_memory_def)
  have wh: "fd_write_while stalled [1, 2, 3, 4] 0 () = None"
  proof (cases "fd_write_while stalled [1, 2, 3, 4] 0 ()")
    case None
    then show ?thesis .
  next
    case (Some y)
    from fd_write_while_stalled [OF this] show ?thesis by simp
  qed
  have g0: "getUint32 demo_memory 0 = Inr 16" and g4: "getUint32 demo_memory 4 = Inr 4"
    using getUint32_in [of 0 demo_memory] getUint32_in [of 4 demo_memory]
    by (simp_all add: l u)
  have vw: "Uint8Array_view demo_memory 16 4 = Inr [1, 2, 3, 4]"
    using Uint8Array_view_in [of 16 4 demo_memory] by (simp add: l b)
  have "fd_write_for stalled demo_memory 0 0 2 0 () = None"
    by (subst fd_write_for.simps) (simp add: g0 g4 vw wh)
  then have c1: "fd_write 1 0 2 24 stalled_bridge = None"
    by (simp add: fd_write_def m o)
  \<comment> \<open>the vector list outside the memory\<close>
  have "getUint32 demo_memory 40 = Inl RangeError"
    by (simp add: getUint32_def getUint_def l)
  then have "fd_write_for (accepting whole) demo_memory 40 0 2 0 ((), []) = Some (Inl RangeError, ((), []))"
    by (subst fd_write_for.simps) simp
  then have c2: "map_option fst (fd_write 1 40 2 24 (writing_bridge whole)) = Some (Inl RangeError)"
    by (simp add: fd_write_def writing_bridge_on_demo writing_bridge_on_fields)
  \<comment> \<open>a vector that names a range outside the memory\<close>
  have lbad: "length bad_memory = 32" by (simp add: bad_memory_def)
  have ub: "u32 bad_memory 0 = 16" "u32 bad_memory 4 = 100"
    by (simp_all add: u32_def bytes_at_def bad_memory_def)
  have gb: "getUint32 bad_memory 0 = Inr 16" "getUint32 bad_memory 4 = Inr 100"
    using getUint32_in [of 0 bad_memory] getUint32_in [of 4 bad_memory]
    by (simp_all add: lbad ub)
  have vb: "Uint8Array_view bad_memory 16 100 = Inl RangeError"
    by (simp add: Uint8Array_view_def lbad)
  have "fd_write_for (accepting whole) bad_memory 0 0 1 0 ((), []) = Some (Inl RangeError, ((), []))"
    by (subst fd_write_for.simps) (simp add: gb vb)
  then have c3: "map_option fst (fd_write 1 0 1 24 (writing_bridge_on bad_memory whole))
      = Some (Inl RangeError)"
    by (simp add: fd_write_def writing_bridge_on_fields)
  \<comment> \<open>the result location outside the memory\<close>
  from fd_write_accepting_run [where st = "writing_bridge_on demo_memory whole" and fd = 1
      and wr = whole and ciovsptr = 0 and ciovslen = 2, OF _ _ _ _ whole_accepts inm]
  obtain wd' where
    "fd_write_for (accepting whole) demo_memory 0 0 2 0 ((), [])
       = Some (Inr 7, (wd', iovec_bytes demo_memory [(16, 4), (20, 3)]))"
    using vs by (auto simp: writing_bridge_on_fields)
  moreover have "setUint32 demo_memory 30 7 = Inl RangeError"
    by (simp add: setUint32_def l)
  ultimately have c4: "map_option fst (fd_write 1 0 2 30 (writing_bridge whole)) = Some (Inl RangeError)"
    by (simp add: fd_write_def writing_bridge_on_demo writing_bridge_on_fields)
  \<comment> \<open>no memory bound\<close>
  have c5: "map_option fst (fd_write 1 0 2 24 unbound_bridge) = Some (Inl MemoryNotSet)"
    by (simp add: fd_write_def unbound_bridge_def wasip1_new_def)
  \<comment> \<open>declared lengths that add up to \<open>2^32\<close>\<close>
  have wv: "iovecs wrap_memory 0 (nat 2) = [(0, 2147483648), (0, 2147483648)]"
    unfolding two by (simp add: wrap_vectors)
  have winm: "iovecs_in_memory wrap_memory 0 (nat 2)"
    unfolding two by (simp add: wrap_vectors length_wrap_memory)
  have c6: "sum_list (map snd (iovecs wrap_memory 0 2)) = 4294967296"
    using wv by simp
  from fd_write_accepting_run [where st = "writing_bridge_on wrap_memory whole" and fd = 1
      and wr = whole and ciovsptr = 0 and ciovslen = 2, OF _ _ _ _ whole_accepts winm]
  obtain wd2 bs2 where
    wl: "fd_write_for (accepting whole) wrap_memory 0 0 2 0 ((), [])
       = Some (Inr 4294967296, (wd2, bs2))"
    using wv by (auto simp: writing_bridge_on_fields)
  have ws: "setUint32 wrap_memory 16 4294967296 = Inr (store wrap_memory 16 (le_bytes 4 0))"
    by (simp add: setUint32_def length_wrap_memory)
  have wu: "u32 (store wrap_memory 16 (le_bytes 4 0)) 16 = 0"
    using u32_setUint32 [of 16 wrap_memory 0] by (simp add: length_wrap_memory)
  have wrun: "fd_write 1 0 2 16 (writing_bridge_on wrap_memory whole)
      = Some (Inr 0, (writing_bridge_on wrap_memory whole)
           \<lparr>memory := Some (store wrap_memory 16 (le_bytes 4 0)), world := (wd2, bs2)\<rparr>)"
    by (simp add: fd_write_def writing_bridge_on_fields wl ws)
  have c7: "map_option fst (fd_write 1 0 2 16 (writing_bridge_on wrap_memory whole)) = Some (Inr 0)"
    unfolding wrun by simp
  have c8: "map_option (\<lambda>r. map_option (\<lambda>m. u32 m 16) (memory (snd r)))
        (fd_write 1 0 2 16 (writing_bridge_on wrap_memory whole)) = Some (Some 0)"
    unfolding wrun by (simp add: wu)
  show ?thesis
    using c1 c2 c3 c4 c5 c6 c7 c8 by (intro conjI)
qed

end
